theory Spec2Isabelle
  imports Complex_Main "HOL-Library.Finite_Map" "HOL-Library.Multiset"
begin

section \<open>Values, exceptions and the observable trace\<close>

text \<open>
  Python values are kept abstract apart from \<open>None\<close>, which the schedulers test for.
  Exceptions are values: every \<open>raise\<close> of the source is an \<open>Inl\<close> result.
\<close>

datatype pyval = PyNone | PyInt int | PyStr string | PyList "pyval list" | PyTuple "pyval list"

datatype exn =
    DAGCycleError string
  | KeyError
  | ValueError string
  | UserError string

type_synonym kwargs = "(string \<times> pyval) list"

text \<open>
  The trace records the calls to the logger made by \<open>Task.__call__\<close>, the calls to
  \<open>time.sleep\<close> and every invocation of a wrapped function body (\<open>Invoke\<close>).
  The \<open>duration\<close> argument of \<open>log_task_success\<close> is wall-clock time and is left out.
\<close>

datatype event =
    LogTaskSkip string string
  | LogTaskStart string
  | LogTaskSuccess string
  | LogTaskFailure string exn
  | LogTaskRetry string int int real
  | Sleep real
  | Invoke string "pyval list" kwargs

text \<open>
  A wrapped function is any Python callable: it receives positional and keyword
  arguments, may read and change the world \<open>'w\<close>, and returns or raises.
\<close>

type_synonym 'w pyfun = "pyval list \<Rightarrow> kwargs \<Rightarrow> 'w \<Rightarrow> (exn + pyval) \<times> 'w"

record 'w runtime =
  world :: 'w
  trace :: "event list"
  draws :: nat

definition emit :: "event \<Rightarrow> 'w runtime \<Rightarrow> 'w runtime" where
  "emit e s = s\<lparr>trace := trace s @ [e]\<rparr>"

section \<open>task.py: the Task class\<close>

text \<open>
  Objects of class \<open>Task\<close> are referred to by an object identity (a \<open>nat\<close>);
  \<open>upstream\<close> and \<open>downstream\<close> hold such references. \<open>params\<close> is what
  \<open>inspect.signature(func).parameters\<close> lists, in order. The field \<open>when\<close> of the
  source is called \<open>when_pred\<close> here.
\<close>

type_synonym tid = nat

record 'w Task =
  func :: "'w pyfun"
  name :: string
  params :: "string list"
  upstream :: "tid list"
  downstream :: "tid list"
  retries :: int
  delay :: real
  backoff :: real
  when_pred :: "(pyval \<Rightarrow> bool) option"

text \<open>\<open>random.uniform(a, b)\<close> is \<open>a + (b - a) * random()\<close>; \<open>u\<close> is the draw.\<close>

definition uniform :: "real \<Rightarrow> real \<Rightarrow> real \<Rightarrow> real" where
  "uniform a b u = a + (b - a) * u"

text \<open>
  The \<open>while True\<close> loop of \<open>Task.__call__\<close> (lines 96-113). \<open>draw k\<close> is the
  \<open>k\<close>-th value returned by \<open>random()\<close>. \<open>time.sleep\<close> raises \<open>ValueError\<close> on a
  negative length; that exception leaves the handler and the call.
\<close>

function retry_loop ::
  "(nat \<Rightarrow> real) \<Rightarrow> 'w Task \<Rightarrow> pyval list \<Rightarrow> kwargs \<Rightarrow> int \<Rightarrow> real \<Rightarrow> 'w runtime
     \<Rightarrow> (exn + pyval) \<times> 'w runtime" where
  "retry_loop draw t args kw attempt current_delay s =
     (let (r, w') = func t args kw (world s);
          s1 = emit (Invoke (name t) args kw) (s\<lparr>world := w'\<rparr>)
      in case r of
           Inr result \<Rightarrow> (Inr result, emit (LogTaskSuccess (name t)) s1)
         | Inl e \<Rightarrow>
             (let attempt' = attempt + 1 in
              if attempt' > retries t then (Inl e, emit (LogTaskFailure (name t) e) s1)
              else if retries t > 0 then
                (let jitter = uniform 0 (current_delay * (1 / 10)) (draw (draws s1));
                     total_delay = current_delay + jitter;
                     s2 = emit (LogTaskRetry (name t) attempt' (retries t) total_delay)
                            (s1\<lparr>draws := draws s1 + 1\<rparr>)
                 in if total_delay < 0
                    then (Inl (ValueError ''sleep length must be non-negative''), s2)
                    else retry_loop draw t args kw attempt' (current_delay * backoff t)
                           (emit (Sleep total_delay) s2))
              else retry_loop draw t args kw attempt' current_delay s1))"
  by pat_completeness auto
termination
  by (relation "measure (\<lambda>(draw, t, args, kw, attempt, cd, s). nat (retries t - attempt))")
     auto

declare retry_loop.simps [simp del]

text \<open>\<open>Task.__call__\<close> (lines 64-113).\<close>

definition Task_call ::
  "(nat \<Rightarrow> real) \<Rightarrow> 'w Task \<Rightarrow> pyval list \<Rightarrow> kwargs \<Rightarrow> 'w runtime
     \<Rightarrow> (exn + pyval) \<times> 'w runtime" where
  "Task_call draw t args kw s =
     (case when_pred t of
        Some cond \<Rightarrow>
          (case args of
             a # _ \<Rightarrow>
               if \<not> cond a
               then (Inr PyNone, emit (LogTaskSkip (name t) ''condition not met'') s)
               else retry_loop draw t args kw 0 (delay t) (emit (LogTaskStart (name t)) s)
           | [] \<Rightarrow> (Inr PyNone, emit (LogTaskSkip (name t) ''no upstream data'') s))
      | None \<Rightarrow> retry_loop draw t args kw 0 (delay t) (emit (LogTaskStart (name t)) s))"



fun is_invoke :: "event \<Rightarrow> bool" where
  "is_invoke (Invoke n a k) = True"
| "is_invoke _ = False"

definition will_run :: "'w Task \<Rightarrow> pyval list \<Rightarrow> bool" where
  "will_run t args =
     (case when_pred t of None \<Rightarrow> True
      | Some cond \<Rightarrow> (case args of [] \<Rightarrow> False | a # _ \<Rightarrow> cond a))"

section \<open>Cycle detection: \<open>_has_cycle\<close>\<close>

text \<open>
  \<open>DAG._has_cycle\<close> (dag.py 134-170), \<open>Flow._has_cycle\<close> (flow.py 303-339) and
  \<open>FunctionalFlow._has_cycle\<close> (functional.py 347-380) are the same function up to
  where the successors of a node are read: \<open>task.downstream\<close> or \<open>self.graph[task]\<close>;
  \<open>succ\<close> stands for that. \<open>state\<close> is the dictionary of colours (0 unvisited,
  1 visiting, 2 visited); reading a node that is not a key raises \<open>KeyError\<close>.
  \<open>dfs_each\<close> is the loop \<open>for downstream in ...: if dfs(downstream): return True\<close>.
  Python's recursion limit is not modelled.
\<close>



function
  dfs :: "('n \<Rightarrow> 'n list) \<Rightarrow> 'n \<Rightarrow> ('n, nat) fmap \<Rightarrow> (exn + bool) \<times> ('n, nat) fmap"
  and dfs_each :: "('n \<Rightarrow> 'n list) \<Rightarrow> 'n list \<Rightarrow> ('n, nat) fmap \<Rightarrow> (exn + bool) \<times> ('n, nat) fmap"
where
  "dfs succ task state =
     (case fmlookup state task of
        None \<Rightarrow> (Inl (KeyError), state)
      | Some c \<Rightarrow>
          if c = 1 then (Inr True, state)
          else if c = 2 then (Inr False, state)
          else (let (r, state') = dfs_each succ (succ task) (fmupd task 1 state)
                in if r = Inr False then (Inr False, fmupd task 2 state') else (r, state')))"
| "dfs_each succ [] state = (Inr False, state)"
| "dfs_each succ (d # ds) state =
     (let (r, state') = dfs succ d state
      in if r = Inr False then dfs_each succ ds state' else (r, state'))"
  by pat_completeness auto


definition white :: "('n, nat) fmap \<Rightarrow> 'n set" where
  "white st = {k. \<exists>c. fmlookup st k = Some c \<and> c \<noteq> 1 \<and> c \<noteq> 2}"

lemma finite_white [simp]: "finite (white st)"
proof -
  have "white st \<subseteq> fmdom' st" by (auto simp: white_def fmdom'I)
  then show ?thesis by (rule finite_subset) simp
qed

lemma white_upd_1 [simp]: "white (fmupd k 1 st) = white st - {k}"
  by (auto simp: white_def)

lemma white_upd_Suc0 [simp]: "white (fmupd k (Suc 0) st) = white st - {k}"
  by (auto simp: white_def)

lemma white_upd_2 [simp]: "white (fmupd k 2 st) = white st - {k}"
  by (auto simp: white_def)

lemma dfs_white_mono:
  "dfs_dfs_each_dom (Inl (succ, v, st)) \<Longrightarrow> white (snd (dfs succ v st)) \<subseteq> white st"
  "dfs_dfs_each_dom (Inr (succ, vs, st)) \<Longrightarrow> white (snd (dfs_each succ vs st)) \<subseteq> white st"
proof (induction succ v st and succ vs st rule: dfs_dfs_each.pinduct)
  case (1 succ task state)
  show ?case
  proof (cases "fmlookup state task")
    case None
    then show ?thesis using 1(1) by (simp add: dfs.psimps)
  next
    case (Some c)
    show ?thesis
    proof (cases "c = 1 \<or> c = 2")
      case True
      then show ?thesis using 1(1) Some by (auto simp: dfs.psimps)
    next
      case False
      then have "white (snd (dfs_each succ (succ task) (fmupd task 1 state)))
          \<subseteq> white (fmupd task 1 state)"
        using 1(2) [OF Some] by simp
      then show ?thesis using 1(1) Some False
        by (auto simp: dfs.psimps split_beta)
    qed
  qed
next
  case (2 succ state)
  then show ?case by (simp add: dfs_each.psimps)
next
  case (3 succ d ds state)
  show ?case
  proof (cases "fst (dfs succ d state) = Inr False")
    case True
    have "(Inr False, snd (dfs succ d state)) = dfs succ d state"
      using True by (metis prod.collapse)
    then have "white (snd (dfs_each succ ds (snd (dfs succ d state)))) \<subseteq> white (snd (dfs succ d state))"
      using 3(3) [OF refl, of "Inr False" "snd (dfs succ d state)"] by simp
    then show ?thesis using 3(1) 3(2) True by (auto simp: dfs_each.psimps split_beta)
  next
    case False
    then show ?thesis using 3(1) 3(2) by (auto simp: dfs_each.psimps split_beta)
  qed
qed

lemma white_card_less:
  "fmlookup st k = Some c \<Longrightarrow> c \<noteq> Suc 0 \<Longrightarrow> c \<noteq> 2 \<Longrightarrow> card (white st - {k}) < card (white st)"
proof -
  assume "fmlookup st k = Some c" "c \<noteq> Suc 0" "c \<noteq> 2"
  then have "k \<in> white st" by (simp add: white_def)
  then show ?thesis by (intro card_Diff1_less) simp_all
qed

lemma white_card_le:
  "dfs_dfs_each_dom (Inl (succ, d, st)) \<Longrightarrow> (r, y) = dfs succ d st \<Longrightarrow> card (white y) \<le> card (white st)"
  using dfs_white_mono(1) [of succ d st] by (metis card_mono finite_white snd_conv)

termination dfs
  apply (relation "inv_image (less_than <*lex*> less_than)
    (\<lambda>x. case x of Inl (succ, v, st) \<Rightarrow> (card (white st), 0)
                 | Inr (succ, vs, st) \<Rightarrow> (card (white st), Suc (length vs)))")
     apply (intro wf_inv_image wf_lex_prod wf_less_than)
    apply (simp add: white_card_less)
   apply simp
  apply (auto dest: white_card_le)
  done

text \<open>
  \<open>scan\<close> is the loop \<open>for task in tasks\<close> at the end of \<open>_has_cycle\<close>, and
  \<open>has_cycle\<close> the whole method; \<open>tasks\<close> is listed in the order of iteration.
\<close>

declare dfs.simps [simp del] dfs_each.simps(2) [simp del]

fun scan :: "('n \<Rightarrow> 'n list) \<Rightarrow> 'n list \<Rightarrow> ('n, nat) fmap \<Rightarrow> (exn + bool) \<times> ('n, nat) fmap" where
  "scan succ [] state = (Inr False, state)"
| "scan succ (task # rest) state =
     (case fmlookup state task of
        None \<Rightarrow> (Inl KeyError, state)
      | Some c \<Rightarrow>
          if c = 0
          then (let (r, state') = dfs succ task state
                in if r = Inr False then scan succ rest state' else (r, state'))
          else scan succ rest state)"

definition has_cycle :: "('n \<Rightarrow> 'n list) \<Rightarrow> 'n list \<Rightarrow> exn + bool" where
  "has_cycle succ tasks = fst (scan succ tasks (fmap_of_list (map (\<lambda>t. (t, 0)) tasks)))"

definition edges :: "('n \<Rightarrow> 'n list) \<Rightarrow> ('n \<times> 'n) set" where
  "edges succ = {(u, w). w \<in> set (succ u)}"

definition safe :: "('n \<Rightarrow> 'n list) \<Rightarrow> 'n \<Rightarrow> bool" where
  "safe succ v \<longleftrightarrow> \<not> (\<exists>c. (v, c) \<in> (edges succ)\<^sup>* \<and> (c, c) \<in> (edges succ)\<^sup>+)"

definition black :: "('n, nat) fmap \<Rightarrow> 'n set" where
  "black st = {k. fmlookup st k = Some 2}"


definition pre :: "('n \<Rightarrow> 'n list) \<Rightarrow> ('n, nat) fmap \<Rightarrow> bool" where
  "pre succ st \<longleftrightarrow>
     (\<forall>k\<in>fmdom' st. set (succ k) \<subseteq> fmdom' st) \<and>
     (\<forall>k c. fmlookup st k = Some c \<longrightarrow> c \<le> 2) \<and>
     (\<forall>b\<in>black st. safe succ b)"



section \<open>The scheduler shared by \<open>DAG.run\<close>, \<open>Flow.run\<close> and \<open>FunctionalFlow.run\<close>\<close>

text \<open>
  The three \<open>run\<close> methods contain the same loop (dag.py 89-128, flow.py 209-249,
  functional.py 259-299). They differ in the node set, in where the edges are kept, in
  the arguments handed to \<open>pool.submit\<close>, in the function the worker runs and in
  whether a \<open>None\<close> result is stored. An \<open>engine\<close> collects these differences:
  \<^item> \<open>nodes\<close>: the tasks, in the order the source iterates over them;
  \<^item> \<open>ups n\<close>: the list whose length initialises \<open>indegree[n]\<close>;
  \<^item> \<open>downs n\<close>: the list the unlocking loop walks when \<open>n\<close> has completed;
  \<^item> \<open>key n\<close>: the name under which the result of \<open>n\<close> is stored;
  \<^item> \<open>payload results n\<close>: what is computed from \<open>results\<close> at submission;
  \<^item> \<open>worker n a results\<close>: what the pool runs; it sees the payload, and the
    \<open>results\<close> dictionary as it is when the worker runs;
  \<^item> \<open>keep v\<close>: whether a result \<open>v\<close> is written into \<open>results\<close>.
\<close>

record ('n, 'a, 'w) engine =
  nodes :: "'n list"
  ups :: "'n \<Rightarrow> 'n list"
  downs :: "'n \<Rightarrow> 'n list"
  key :: "'n \<Rightarrow> string"
  payload :: "(string \<rightharpoonup> pyval) \<Rightarrow> 'n \<Rightarrow> 'a"
  worker :: "'n \<Rightarrow> 'a \<Rightarrow> (string \<rightharpoonup> pyval) \<Rightarrow> 'w runtime \<Rightarrow> (exn + pyval) \<times> 'w runtime"
  keep :: "pyval \<Rightarrow> bool"

text \<open>
  A future is queued until a worker has run it, and done afterwards. The state of the
  loop holds the local variables \<open>indegree\<close>, \<open>results\<close>, \<open>futures\<close> and
  \<open>completed\<close>, the runtime, and three history lists that the source does not keep:
  the nodes passed to \<open>pool.submit\<close>, the nodes a worker has run, and the nodes whose
  completion the loop has handled without an exception.
\<close>

datatype 'a future = Queued 'a | Done "exn + pyval"

record ('n, 'a, 'w) pool_state =
  indegree :: "'n \<rightharpoonup> int"
  results :: "string \<rightharpoonup> pyval"
  futures :: "('n \<times> 'a future) list"
  completed :: nat
  rt :: "'w runtime"
  submitted :: "'n list"
  started :: "'n list"
  finished :: "'n list"

text \<open>\<open>futures[pool.submit(...)] = n\<close>.\<close>

definition submit :: "('n, 'a, 'w) engine \<Rightarrow> 'n \<Rightarrow> ('n, 'a, 'w) pool_state \<Rightarrow> ('n, 'a, 'w) pool_state" where
  "submit E n s =
     s\<lparr>futures := futures s @ [(n, Queued (payload E (results s) n))],
       submitted := submitted s @ [n]\<rparr>"

text \<open>
  The state before the \<open>while\<close> loop. The nodes submitted first have
  \<open>indegree\<close> 0, and \<open>results\<close> is still empty.
\<close>

definition init_state :: "('n, 'a, 'w) engine \<Rightarrow> 'w runtime \<Rightarrow> ('n, 'a, 'w) pool_state" where
  "init_state E r =
     (let ind = map_of (map (\<lambda>t. (t, int (length (ups E t)))) (nodes E));
          ready = filter (\<lambda>t. ind t = Some 0) (nodes E)
      in fold (submit E) ready
           \<lparr>indegree = ind, results = Map.empty, futures = [], completed = 0, rt = r,
            submitted = [], started = [], finished = []\<rparr>)"

text \<open>
  The loop \<open>for down in adj[task]\<close>. \<open>indegree[down]\<close> raises \<open>KeyError\<close> for a
  node that is not a key of the dictionary.
\<close>

fun unlock ::
  "('n, 'a, 'w) engine \<Rightarrow> 'n list \<Rightarrow> ('n, 'a, 'w) pool_state
     \<Rightarrow> exn \<times> ('n, 'a, 'w) pool_state + ('n, 'a, 'w) pool_state" where
  "unlock E [] s = Inr s"
| "unlock E (down # rest) s =
     (case indegree s down of
        None \<Rightarrow> Inl (KeyError, s)
      | Some k \<Rightarrow>
          (let s1 = s\<lparr>indegree := (indegree s)(down \<mapsto> k - 1)\<rparr>
           in if k - 1 = 0 then unlock E rest (submit E down s1) else unlock E rest s1))"

text \<open>
  The body of \<open>for fut in as_completed(futures)\<close> for the done future at position
  \<open>i\<close>: pop it, re-raise its exception or record its result, then unlock.
\<close>

definition complete ::
  "('n, 'a, 'w) engine \<Rightarrow> nat \<Rightarrow> 'n \<Rightarrow> exn + pyval \<Rightarrow> ('n, 'a, 'w) pool_state
     \<Rightarrow> exn \<times> ('n, 'a, 'w) pool_state + ('n, 'a, 'w) pool_state" where
  "complete E i n r s =
     (let s0 = s\<lparr>futures := take i (futures s) @ drop (Suc i) (futures s)\<rparr>
      in case r of
           Inl e \<Rightarrow> Inl (e, s0)
         | Inr result \<Rightarrow>
             unlock E (downs E n)
               (s0\<lparr>results := (if keep E result then (results s0)(key E n \<mapsto> result)
                               else results s0),
                   completed := completed s0 + 1,
                   finished := finished s0 @ [n]\<rparr>))"

text \<open>A worker of the pool runs the queued future at position \<open>i\<close>.\<close>

definition run_future ::
  "('n, 'a, 'w) engine \<Rightarrow> nat \<Rightarrow> 'n \<Rightarrow> 'a \<Rightarrow> ('n, 'a, 'w) pool_state \<Rightarrow> ('n, 'a, 'w) pool_state" where
  "run_future E i n a s =
     (let (r, rt') = worker E n a (results s) (rt s)
      in s\<lparr>futures := (futures s)[i := (n, Done r)], rt := rt', started := started s @ [n]\<rparr>)"

text \<open>
  Which future moves next is not decided by the program: it depends on the pool and
  on how long bodies take. A schedule is a list of numbers; the number \<open>k\<close> selects
  the outstanding future at position \<open>k mod length futures\<close>. If that future is
  queued a worker runs it (a body runs as one step); if it is done, the loop takes it
  from \<open>as_completed\<close>. Every order in which the source can run bodies one after
  another and handle completions is the effect of some schedule.
\<close>

definition step ::
  "('n, 'a, 'w) engine \<Rightarrow> nat \<Rightarrow> ('n, 'a, 'w) pool_state
     \<Rightarrow> exn \<times> ('n, 'a, 'w) pool_state + ('n, 'a, 'w) pool_state" where
  "step E k s =
     (let i = k mod length (futures s)
      in case futures s ! i of
           (n, Queued a) \<Rightarrow> Inr (run_future E i n a s)
         | (n, Done r) \<Rightarrow> complete E i n r s)"

text \<open>
  Leaving the \<open>with\<close> block with an exception shuts the pool down and waits: the
  futures still queued are run (here in the order of submission), none is submitted.
\<close>

fun drain :: "('n, 'a, 'w) engine \<Rightarrow> nat \<Rightarrow> ('n, 'a, 'w) pool_state \<Rightarrow> ('n, 'a, 'w) pool_state" where
  "drain E 0 s = s"
| "drain E (Suc i) s =
     (let s' = drain E i s
      in case futures s' ! i of
           (n, Queued a) \<Rightarrow> run_future E i n a s'
         | (n, Done r) \<Rightarrow> s')"

definition shutdown :: "('n, 'a, 'w) engine \<Rightarrow> ('n, 'a, 'w) pool_state \<Rightarrow> ('n, 'a, 'w) pool_state" where
  "shutdown E s = drain E (length (futures s)) s"

datatype status = Running | Raised exn | Returned

text \<open>
  The \<open>while futures\<close> loop. \<open>Running\<close> is the answer when the schedule ends while
  futures are outstanding.
\<close>

fun run_loop ::
  "('n, 'a, 'w) engine \<Rightarrow> nat list \<Rightarrow> ('n, 'a, 'w) pool_state \<Rightarrow> status \<times> ('n, 'a, 'w) pool_state" where
  "run_loop E [] s = (if futures s = [] then Returned else Running, s)"
| "run_loop E (k # ks) s =
     (if futures s = [] then (Returned, s)
      else case step E k s of
             Inl (e, s') \<Rightarrow> (Raised e, shutdown E s')
           | Inr s' \<Rightarrow> run_loop E ks s')"

datatype 'r outcome = Return 'r | Raise exn | Unfinished

section \<open>dag.py: \<open>DAG.run\<close>\<close>

text \<open>
  \<open>tasks\<close> is the registry \<open>Task._all_tasks\<close>, a list of object identities, and
  \<open>heap\<close> gives the object behind an identity. \<open>DAG_adj\<close> is the dictionary \<open>adj\<close>
  built at lines 74-80, \<open>DAG_args\<close> the list comprehension
  \<open>[results.get(u.name) for u in down.upstream]\<close>; for the nodes submitted before the
  loop the comprehension \<open>[results[u.name] for u in t.upstream]\<close> ranges over an empty
  \<open>upstream\<close>, and both give the empty list. The worker calls the task with these
  positional arguments. The choice between threads and processes is not modelled.
\<close>

definition DAG_adj :: "(tid \<Rightarrow> 'w Task) \<Rightarrow> tid list \<Rightarrow> tid \<Rightarrow> tid list" where
  "DAG_adj heap tasks t = concat (map (\<lambda>x. if x = t then downstream (heap x) else []) tasks)"

definition DAG_args :: "(tid \<Rightarrow> 'w Task) \<Rightarrow> (string \<rightharpoonup> pyval) \<Rightarrow> tid \<Rightarrow> pyval list" where
  "DAG_args heap res t =
     map (\<lambda>u. case res (name (heap u)) of Some v \<Rightarrow> v | None \<Rightarrow> PyNone) (upstream (heap t))"

definition DAG_engine ::
  "(nat \<Rightarrow> real) \<Rightarrow> (tid \<Rightarrow> 'w Task) \<Rightarrow> tid list \<Rightarrow> (tid, pyval list, 'w) engine" where
  "DAG_engine draw heap tasks =
     \<lparr>nodes = tasks,
      ups = (\<lambda>t. upstream (heap t)),
      downs = DAG_adj heap tasks,
      key = (\<lambda>t. name (heap t)),
      payload = DAG_args heap,
      worker = (\<lambda>t args res s. Task_call draw (heap t) args [] s),
      keep = (\<lambda>v. v \<noteq> PyNone)\<rparr>"

definition DAG_pool ::
  "(nat \<Rightarrow> real) \<Rightarrow> (tid \<Rightarrow> 'w Task) \<Rightarrow> tid list \<Rightarrow> nat list \<Rightarrow> 'w runtime
     \<Rightarrow> status \<times> (tid, pyval list, 'w) pool_state" where
  "DAG_pool draw heap tasks sched r =
     run_loop (DAG_engine draw heap tasks) sched (init_state (DAG_engine draw heap tasks) r)"

definition DAG_run ::
  "(nat \<Rightarrow> real) \<Rightarrow> (tid \<Rightarrow> 'w Task) \<Rightarrow> tid list \<Rightarrow> nat list \<Rightarrow> 'w runtime
     \<Rightarrow> (string \<rightharpoonup> pyval) outcome \<times> 'w runtime" where
  "DAG_run draw heap tasks sched r =
     (if tasks = [] then (Return Map.empty, r)
      else case has_cycle (\<lambda>t. downstream (heap t)) tasks of
             Inl e \<Rightarrow> (Raise e, r)
           | Inr True \<Rightarrow> (Raise (DAGCycleError ''Circular dependency detected in DAG''), r)
           | Inr False \<Rightarrow>
               (case DAG_pool draw heap tasks sched r of
                  (Returned, s) \<Rightarrow> (Return (results s), rt s)
                | (Raised e, s) \<Rightarrow> (Raise e, rt s)
                | (Running, s) \<Rightarrow> (Unfinished, rt s)))"

section \<open>flow.py: \<open>Flow.run\<close>\<close>

text \<open>
  A \<open>Flow\<close> keeps its edges in the dictionaries \<open>graph\<close> and \<open>reverse_graph\<close>
  (\<open>defaultdict(list)\<close>: a missing key reads as the empty list). \<open>all_tasks\<close> is the
  set computed at lines 180-182, listed in the order in which the set is iterated.
  \<open>raw_call\<close> is a direct call \<open>task.func(**kwargs)\<close> of the wrapped function.
\<close>

record Flow =
  flow_tasks :: "tid list"
  graph :: "tid \<Rightarrow> tid list"
  reverse_graph :: "tid \<Rightarrow> tid list"

fun filter_kwargs :: "string list \<Rightarrow> (string \<rightharpoonup> pyval) \<Rightarrow> kwargs" where
  "filter_kwargs [] res = []"
| "filter_kwargs (param_name # ps) res =
     (case res param_name of
        Some v \<Rightarrow> (param_name, v) # filter_kwargs ps res
      | None \<Rightarrow> filter_kwargs ps res)"

definition raw_call :: "'w Task \<Rightarrow> kwargs \<Rightarrow> 'w runtime \<Rightarrow> (exn + pyval) \<times> 'w runtime" where
  "raw_call t kw s =
     (let (r, w') = func t [] kw (world s)
      in (r, emit (Invoke (name t) [] kw) (s\<lparr>world := w'\<rparr>)))"

text \<open>\<open>Flow._execute_task\<close> (lines 255-288).\<close>

definition Flow_execute_task ::
  "(nat \<Rightarrow> real) \<Rightarrow> 'w Task \<Rightarrow> (string \<rightharpoonup> pyval) \<Rightarrow> 'w runtime \<Rightarrow> (exn + pyval) \<times> 'w runtime" where
  "Flow_execute_task draw t upstream_results s =
     (if upstream_results = Map.empty then Task_call draw t [] [] s
      else (let filtered_kwargs = filter_kwargs (params t) upstream_results
            in if filtered_kwargs \<noteq> [] then raw_call t filtered_kwargs s
               else Task_call draw t [] [] s))"

definition Flow_engine ::
  "(nat \<Rightarrow> real) \<Rightarrow> (tid \<Rightarrow> 'w Task) \<Rightarrow> Flow \<Rightarrow> tid list \<Rightarrow> (tid, string \<rightharpoonup> pyval, 'w) engine" where
  "Flow_engine draw heap fl all_tasks =
     \<lparr>nodes = all_tasks,
      ups = reverse_graph fl,
      downs = graph fl,
      key = (\<lambda>t. name (heap t)),
      payload = (\<lambda>res t. res),
      worker = (\<lambda>t down_kwargs res s. Flow_execute_task draw (heap t) down_kwargs s),
      keep = (\<lambda>v. v \<noteq> PyNone)\<rparr>"

definition Flow_pool ::
  "(nat \<Rightarrow> real) \<Rightarrow> (tid \<Rightarrow> 'w Task) \<Rightarrow> Flow \<Rightarrow> tid list \<Rightarrow> nat list \<Rightarrow> 'w runtime
     \<Rightarrow> status \<times> (tid, string \<rightharpoonup> pyval, 'w) pool_state" where
  "Flow_pool draw heap fl all_tasks sched r =
     run_loop (Flow_engine draw heap fl all_tasks) sched
       (init_state (Flow_engine draw heap fl all_tasks) r)"

definition Flow_run ::
  "(nat \<Rightarrow> real) \<Rightarrow> (tid \<Rightarrow> 'w Task) \<Rightarrow> Flow \<Rightarrow> tid list \<Rightarrow> nat list \<Rightarrow> 'w runtime
     \<Rightarrow> (string \<rightharpoonup> pyval) outcome \<times> 'w runtime" where
  "Flow_run draw heap fl all_tasks sched r =
     (if all_tasks = [] then (Return Map.empty, r)
      else case has_cycle (graph fl) all_tasks of
             Inl e \<Rightarrow> (Raise e, r)
           | Inr True \<Rightarrow> (Raise (DAGCycleError ''Circular dependency detected in flow''), r)
           | Inr False \<Rightarrow>
               (case Flow_pool draw heap fl all_tasks sched r of
                  (Returned, s) \<Rightarrow> (Return (results s), rt s)
                | (Raised e, s) \<Rightarrow> (Raise e, rt s)
                | (Running, s) \<Rightarrow> (Unfinished, rt s)))"

section \<open>functional.py: \<open>AppliedTask\<close>, \<open>Layer\<close>, \<open>FunctionalFlow\<close>\<close>

text \<open>
  An \<open>AppliedTask\<close> is created with its inputs and never changes them, so a node is
  a term; \<open>oid\<close> is the identity of the object, which \<open>node in self.all_nodes\<close>
  compares. A \<open>Layer\<close> among the inputs is turned into a new \<open>AppliedTask\<close> without
  inputs each time it is met (\<open>node()\<close>); \<open>fresh\<close> numbers these new objects.
\<close>

datatype 'w fnode =
    AppliedTask (oid: nat) (node_task: "'w Task") (inputs: "'w fnode list")
  | Layer (node_task: "'w Task")

definition node_name :: "'w fnode \<Rightarrow> string" where
  "node_name n = name (node_task n)"

record 'w fgraph =
  all_nodes :: "'w fnode list"
  fwd :: "'w fnode \<Rightarrow> 'w fnode list"
  rev_graph :: "'w fnode \<Rightarrow> 'w fnode list"
  fresh :: nat

text \<open>\<open>if isinstance(node, Layer): node = node()\<close>.\<close>

fun as_applied :: "'w fnode \<Rightarrow> 'w fgraph \<Rightarrow> 'w fnode \<times> 'w fgraph" where
  "as_applied (Layer t) g = (AppliedTask (fresh g) t [], g\<lparr>fresh := fresh g + 1\<rparr>)"
| "as_applied (AppliedTask i t ins) g = (AppliedTask i t ins, g)"

fun weight :: "'w fnode \<Rightarrow> nat" where
  "weight (Layer t) = 1"
| "weight (AppliedTask i t ins) = Suc (sum_list (map weight ins))"

lemma weight_as_applied: "weight (fst (as_applied n g)) = weight n"
  by (cases n) simp_all

lemma weight_pos: "0 < weight n"
  by (cases n) simp_all

lemma weight_inputs: "sum_list (map weight (inputs (fst (as_applied n g)))) < weight n"
  by (cases n) simp_all

lemma weight_inputs2:
  "Suc (2 * sum_list (map weight (inputs (fst (as_applied n g))))) < 2 * weight n"
  using weight_inputs [of n g] by arith

text \<open>
  \<open>traverse\<close> of \<open>_build_graph\<close> (lines 184-205); \<open>traverse_inputs node\<close> is its loop
  \<open>for inp in node.inputs\<close>. \<open>self.graph\<close> is \<open>fwd\<close> and \<open>self.reverse_graph\<close> is
  \<open>rev_graph\<close>.
\<close>

function traverse :: "'w fnode \<Rightarrow> 'w fgraph \<Rightarrow> 'w fgraph"
  and traverse_inputs :: "'w fnode \<Rightarrow> 'w fnode list \<Rightarrow> 'w fgraph \<Rightarrow> 'w fgraph"
where
  "traverse node g =
     (let node' = fst (as_applied node g); g1 = snd (as_applied node g)
      in if node' \<in> set (all_nodes g1) then g1
         else traverse_inputs node' (inputs node') (g1\<lparr>all_nodes := all_nodes g1 @ [node']\<rparr>))"
| "traverse_inputs node [] g = g"
| "traverse_inputs node (inp # rest) g =
     (let inp' = fst (as_applied inp g); g1 = snd (as_applied inp g);
          g2 = traverse inp' g1
      in traverse_inputs node rest
           (g2\<lparr>fwd := (fwd g2)(inp' := fwd g2 inp' @ [node]),
               rev_graph := (rev_graph g2)(node := rev_graph g2 node @ [inp'])\<rparr>))"
  by pat_completeness auto
termination
proof (relation "measure (\<lambda>x. case x of
         Inl (node, g) \<Rightarrow> 2 * weight node
       | Inr (node, ins, g) \<Rightarrow> 2 * sum_list (map weight ins) + 1)", goal_cases)
  case 1
  show ?case by simp
next
  case 2
  then show ?case by (simp add: weight_inputs2)
next
  case 3
  then show ?case by (auto simp: split_beta weight_as_applied)
next
  case 4
  then show ?case using weight_pos by (auto simp: split_beta)
qed

declare traverse.simps [simp del]

text \<open>
  \<open>_build_graph\<close>: \<open>for output in self.outputs: traverse(output)\<close>, from empty tables.
  \<open>fresh0\<close> is an identity above those of the objects that exist.
\<close>

definition build_graph :: "'w fnode list \<Rightarrow> nat \<Rightarrow> 'w fgraph" where
  "build_graph outs fresh0 =
     fold traverse outs \<lparr>all_nodes = [], fwd = (\<lambda>n. []), rev_graph = (\<lambda>n. []), fresh = fresh0\<rparr>"

text \<open>\<open>FunctionalFlow._execute_node\<close> (lines 312-345).\<close>

definition execute_node ::
  "(nat \<Rightarrow> real) \<Rightarrow> 'w fnode \<Rightarrow> (string \<rightharpoonup> pyval) \<Rightarrow> 'w runtime \<Rightarrow> (exn + pyval) \<times> 'w runtime" where
  "execute_node draw node res s =
     (if inputs node = [] then Task_call draw (node_task node) [] [] s
      else (let kwargs = filter_kwargs (params (node_task node)) res
            in if kwargs \<noteq> [] then raw_call (node_task node) kwargs s
               else Task_call draw (node_task node) [] [] s))"

definition Functional_engine ::
  "(nat \<Rightarrow> real) \<Rightarrow> 'w fgraph \<Rightarrow> ('w fnode, unit, 'w) engine" where
  "Functional_engine draw G =
     \<lparr>nodes = all_nodes G,
      ups = rev_graph G,
      downs = fwd G,
      key = node_name,
      payload = (\<lambda>res n. ()),
      worker = (\<lambda>n a res s. execute_node draw n res s),
      keep = (\<lambda>v. True)\<rparr>"

definition Functional_pool ::
  "(nat \<Rightarrow> real) \<Rightarrow> 'w fgraph \<Rightarrow> nat list \<Rightarrow> 'w runtime
     \<Rightarrow> status \<times> ('w fnode, unit, 'w) pool_state" where
  "Functional_pool draw G sched r =
     run_loop (Functional_engine draw G) sched (init_state (Functional_engine draw G) r)"

text \<open>
  \<open>tuple(results[out.name] for out in self.outputs)\<close>; a missing name raises
  \<open>KeyError\<close>.
\<close>

fun output_values :: "(string \<rightharpoonup> pyval) \<Rightarrow> 'w fnode list \<Rightarrow> exn + pyval list" where
  "output_values res [] = Inr []"
| "output_values res (out # rest) =
     (case res (node_name out) of
        None \<Rightarrow> Inl KeyError
      | Some v \<Rightarrow> (case output_values res rest of Inl e \<Rightarrow> Inl e | Inr vs \<Rightarrow> Inr (v # vs)))"

text \<open>
  \<open>FunctionalFlow.run\<close> (lines 211-310) of the flow built from \<open>outs\<close>; the
  constructor has run \<open>_build_graph\<close>.
\<close>

definition FunctionalFlow_run ::
  "(nat \<Rightarrow> real) \<Rightarrow> 'w fnode list \<Rightarrow> nat \<Rightarrow> nat list \<Rightarrow> 'w runtime \<Rightarrow> pyval outcome \<times> 'w runtime" where
  "FunctionalFlow_run draw outs fresh0 sched r =
     (let G = build_graph outs fresh0 in
      if all_nodes G = []
      then (Return (if length outs = 1 then PyNone else PyTuple (map (\<lambda>_. PyNone) outs)), r)
      else case has_cycle (fwd G) (all_nodes G) of
             Inl e \<Rightarrow> (Raise e, r)
           | Inr True \<Rightarrow> (Raise (DAGCycleError ''Circular dependency detected in flow''), r)
           | Inr False \<Rightarrow>
               (case Functional_pool draw G sched r of
                  (Returned, s) \<Rightarrow>
                    (case output_values (results s) outs of
                       Inl e \<Rightarrow> (Raise e, rt s)
                     | Inr vs \<Rightarrow>
                         (Return (if length vs = 1 then hd vs else PyTuple vs), rt s))
                | (Raised e, s) \<Rightarrow> (Raise e, rt s)
                | (Running, s) \<Rightarrow> (Unfinished, rt s)))"

subsection \<open>Facts about one call of a task\<close>


lemma retry_loop_success:
  "func t args kw (world s) = (Inr v, w') \<Longrightarrow>
   retry_loop draw t args kw attempt cd s =
     (Inr v, emit (LogTaskSuccess (name t)) (emit (Invoke (name t) args kw) (s\<lparr>world := w'\<rparr>)))"
  by (subst retry_loop.simps) simp



lemma retry_loop_sleep_error:
  "func t args kw (world s) = (Inl e, w') \<Longrightarrow> attempt + 1 \<le> retries t \<Longrightarrow> 0 < retries t \<Longrightarrow>
   cd + uniform 0 (cd * (1 / 10)) (draw (draws s)) < 0 \<Longrightarrow>
   retry_loop draw t args kw attempt cd s =
     (Inl (ValueError ''sleep length must be non-negative''),
       (emit (LogTaskRetry (name t) (attempt + 1) (retries t)
                  (cd + uniform 0 (cd * (1 / 10)) (draw (draws s))))
           ((emit (Invoke (name t) args kw) (s\<lparr>world := w'\<rparr>))\<lparr>draws := draws s + 1\<rparr>)))"
  by (subst retry_loop.simps) (simp add: emit_def Let_def)


lemma Task_call_run:
  "will_run t args \<Longrightarrow>
   Task_call draw t args kw s =
     retry_loop draw t args kw 0 (delay t) (emit (LogTaskStart (name t)) s)"
  by (auto simp: Task_call_def will_run_def split: option.splits list.splits)

lemma Task_call_skip:
  "\<not> will_run t args \<Longrightarrow>
   Task_call draw t args kw s =
     (Inr PyNone, emit (LogTaskSkip (name t)
        (if args = [] then ''no upstream data'' else ''condition not met'')) s)"
  by (auto simp: Task_call_def will_run_def split: option.splits list.splits)



section \<open>Invariants of the scheduler\<close>

text \<open>
  An engine is well formed when its nodes are listed once, every edge stays inside the
  node set, and the two edge tables agree: \<open>d\<close> occurs in \<open>downs u\<close> as often as
  \<open>u\<close> occurs in \<open>ups d\<close>. The operators \<open>>>\<close>, \<open>add\<close>, \<open>branch\<close>, \<open>merge\<close> and
  \<open>_build_graph\<close> always append to both tables together.

  \<open>Inv\<close> holds between two steps of a run that has not raised: \<open>indegree[d]\<close> is the
  number of upstream entries of \<open>d\<close> minus the edges into \<open>d\<close> from the nodes handled so
  far, and a node has been submitted exactly when its \<open>indegree\<close> is 0. \<open>Safe\<close> is the
  part that also holds after an exception.
\<close>

definition wf_engine :: "('n, 'a, 'w) engine \<Rightarrow> bool" where
  "wf_engine E \<longleftrightarrow>
     distinct (nodes E) \<and>
     (\<forall>n\<in>set (nodes E). set (downs E n) \<subseteq> set (nodes E) \<and> set (ups E n) \<subseteq> set (nodes E)) \<and>
     (\<forall>u\<in>set (nodes E). \<forall>d\<in>set (nodes E). count_list (downs E u) d = count_list (ups E d) u)"

definition Inv :: "('n, 'a, 'w) engine \<Rightarrow> ('n, 'a, 'w) pool_state \<Rightarrow> bool" where
  "Inv E s \<longleftrightarrow>
     distinct (submitted s) \<and>
     set (submitted s) \<subseteq> set (nodes E) \<and>
     mset (map fst (futures s)) + mset (finished s) = mset (submitted s) \<and>
     (\<forall>d\<in>set (nodes E).
        indegree s d =
          Some (int (length (ups E d)) - int (\<Sum>u\<in>set (finished s). count_list (downs E u) d))) \<and>
     (\<forall>d\<in>set (nodes E). d \<in> set (submitted s) \<longleftrightarrow> indegree s d = Some 0) \<and>
     set (started s) \<subseteq> set (submitted s) \<and>
     dom (results s) \<subseteq> key E ` set (finished s)"

definition Safe :: "('n, 'a, 'w) engine \<Rightarrow> ('n, 'a, 'w) pool_state \<Rightarrow> bool" where
  "Safe E s \<longleftrightarrow>
     distinct (submitted s) \<and>
     set (submitted s) \<subseteq> set (nodes E) \<and>
     set (started s) \<subseteq> set (submitted s) \<and>
     set (finished s) \<subseteq> set (submitted s) \<and>
     fst ` set (futures s) \<subseteq> set (submitted s) \<and>
     (\<forall>d\<in>set (submitted s). set (ups E d) \<subseteq> set (finished s)) \<and>
     (\<forall>d\<in>set (submitted s). indegree s d = Some 0) \<and>
     dom (results s) \<subseteq> key E ` set (finished s)"

text \<open>
  The registry of \<open>DAG.run\<close> and the tables of a \<open>Flow\<close> are well formed in the
  same sense: the operator \<open>>>\<close> appends to \<open>upstream\<close> and \<open>downstream\<close> together, and
  \<open>add\<close>, \<open>branch\<close> and \<open>merge\<close> append to \<open>graph\<close> and \<open>reverse_graph\<close> together.
  \<open>after\<close> is the state in which a step ends, whether it raises or not.
\<close>

definition wf_registry :: "(tid \<Rightarrow> 'w Task) \<Rightarrow> tid list \<Rightarrow> bool" where
  "wf_registry heap tasks \<longleftrightarrow>
     distinct tasks \<and>
     (\<forall>t\<in>set tasks. set (upstream (heap t)) \<subseteq> set tasks \<and> set (downstream (heap t)) \<subseteq> set tasks) \<and>
     (\<forall>u\<in>set tasks. \<forall>d\<in>set tasks.
        count_list (downstream (heap u)) d = count_list (upstream (heap d)) u)"

definition wf_flow :: "Flow \<Rightarrow> tid list \<Rightarrow> bool" where
  "wf_flow fl all_tasks \<longleftrightarrow>
     distinct all_tasks \<and>
     (\<forall>t\<in>set all_tasks. set (reverse_graph fl t) \<subseteq> set all_tasks \<and> set (graph fl t) \<subseteq> set all_tasks) \<and>
     (\<forall>u\<in>set all_tasks. \<forall>d\<in>set all_tasks.
        count_list (graph fl u) d = count_list (reverse_graph fl d) u)"

definition after :: "exn \<times> ('n, 'a, 'w) pool_state + ('n, 'a, 'w) pool_state \<Rightarrow> ('n, 'a, 'w) pool_state" where
  "after x = (case x of Inl (e, s) \<Rightarrow> s | Inr s \<Rightarrow> s)"

text \<open>
  \<open>GI\<close> is what \<open>_build_graph\<close> maintains: nodes are listed once, edges join listed
  nodes, and \<open>graph\<close> and \<open>reverse_graph\<close> record the same edges. A node is
  \<open>layer_free\<close> when no \<open>Layer\<close> occurs among its inputs, at any depth;
  \<open>subnodes n\<close> are the nodes reached from \<open>n\<close> through \<open>inputs\<close>. \<open>CL g S\<close> says
  that every listed node outside \<open>S\<close> (the nodes whose loop over the inputs is still
  running) has all its subnodes listed and its inputs as \<open>reverse_graph\<close> entry.
\<close>

definition GI :: "'w fgraph \<Rightarrow> bool" where
  "GI g \<longleftrightarrow>
     distinct (all_nodes g) \<and>
     (\<forall>u d. count_list (fwd g u) d = count_list (rev_graph g d) u) \<and>
     (\<forall>u d. d \<in> set (fwd g u) \<longrightarrow> u \<in> set (all_nodes g) \<and> d \<in> set (all_nodes g))"

fun layer_free :: "'w fnode \<Rightarrow> bool" where
  "layer_free (Layer t) = False"
| "layer_free (AppliedTask i t ins) = (\<forall>x\<in>set ins. layer_free x)"

fun subnodes :: "'w fnode \<Rightarrow> 'w fnode set" where
  "subnodes (Layer t) = {Layer t}"
| "subnodes (AppliedTask i t ins) = insert (AppliedTask i t ins) (\<Union>x\<in>set ins. subnodes x)"

definition CL :: "'w fgraph \<Rightarrow> 'w fnode set \<Rightarrow> bool" where
  "CL g S \<longleftrightarrow>
     (\<forall>n\<in>set (all_nodes g) - S. subnodes n \<subseteq> set (all_nodes g) \<and> rev_graph g n = inputs n) \<and>
     (\<forall>n. n \<notin> set (all_nodes g) \<longrightarrow> rev_graph g n = [])"



text \<open>
  \<open>Provenance E P s\<close>: every queued future of \<open>s\<close> carries a payload built from
  some store, every completed future holds an outcome allowed by \<open>P\<close>, and every entry
  of the Result Store is a kept value that \<open>P\<close> allows for a node with that key.
\<close>

definition Provenance ::
  "('n, 'a, 'w) engine \<Rightarrow> ('n \<Rightarrow> exn + pyval \<Rightarrow> bool) \<Rightarrow> ('n, 'a, 'w) pool_state \<Rightarrow> bool" where
  "Provenance E P s \<longleftrightarrow>
     (\<forall>n a. (n, Queued a) \<in> set (futures s) \<longrightarrow> (\<exists>res. a = payload E res n)) \<and>
     (\<forall>n r. (n, Done r) \<in> set (futures s) \<longrightarrow> P n r) \<and>
     (\<forall>k v. results s k = Some v \<longrightarrow> (\<exists>n\<in>set (nodes E). key E n = k \<and> keep E v \<and> P n (Inr v)))"

text \<open>
  \<open>potential\<close> bounds the number of steps a run can still take: two for every node
  not yet submitted and for every queued future, one for every future that is done.
\<close>

definition load :: "('n \<times> 'a future) list \<Rightarrow> nat" where
  "load fs = sum_list (map (\<lambda>nf. case snd nf of Queued a \<Rightarrow> 2 | Done r \<Rightarrow> 1) fs)"


lemma submit_fields [simp]:
  "indegree (submit E n s) = indegree s"
  "results (submit E n s) = results s"
  "futures (submit E n s) = futures s @ [(n, Queued (payload E (results s) n))]"
  "submitted (submit E n s) = submitted s @ [n]"
  "started (submit E n s) = started s"
  "finished (submit E n s) = finished s"
  "rt (submit E n s) = rt s"
  "completed (submit E n s) = completed s"
  by (simp_all add: submit_def)

lemma unlock_effect:
  assumes "\<forall>d\<in>set ds. \<exists>k. indegree s d = Some k \<and> int (count_list ds d) \<le> k"
  shows "\<exists>s' new. unlock E ds s = Inr s'
     \<and> indegree s' = (\<lambda>d. map_option (\<lambda>k. k - int (count_list ds d)) (indegree s d))
     \<and> futures s' = futures s @ map (\<lambda>n. (n, Queued (payload E (results s) n))) new
     \<and> submitted s' = submitted s @ new
     \<and> distinct new
     \<and> set new = {d \<in> set ds. indegree s d = Some (int (count_list ds d))}
     \<and> results s' = results s \<and> finished s' = finished s \<and> started s' = started s
     \<and> rt s' = rt s \<and> completed s' = completed s"
  using assms
proof (induction ds arbitrary: s)
  case Nil
  show ?case by (simp add: fun_eq_iff option.map_ident)
next
  case (Cons d rest)
  from Cons.prems obtain k where k: "indegree s d = Some k" "int (count_list rest d) + 1 \<le> k"
    by auto
  let ?s1 = "s\<lparr>indegree := (indegree s)(d \<mapsto> k - 1)\<rparr>"
  show ?case
  proof (cases "k - 1 = 0")
    case True
    then have k1: "k = 1" by simp
    with k have c0: "count_list rest d = 0" by simp
    then have dn: "d \<notin> set rest" by (simp add: count_list_0_iff)
    let ?s2 = "submit E d ?s1"
    have pre: "\<forall>x\<in>set rest. \<exists>j. indegree ?s2 x = Some j \<and> int (count_list rest x) \<le> j"
    proof
      fix x assume x: "x \<in> set rest"
      then have "x \<noteq> d" using dn by auto
      moreover from Cons.prems x obtain j where "indegree s x = Some j" "int (count_list (d # rest) x) \<le> j"
        by auto
      ultimately show "\<exists>j. indegree ?s2 x = Some j \<and> int (count_list rest x) \<le> j"
        by auto
    qed
    from Cons.IH [OF pre] obtain s' new where IH:
      "unlock E rest ?s2 = Inr s'"
      "indegree s' = (\<lambda>x. map_option (\<lambda>k. k - int (count_list rest x)) (indegree ?s2 x))"
      "futures s' = futures ?s2 @ map (\<lambda>n. (n, Queued (payload E (results ?s2) n))) new"
      "submitted s' = submitted ?s2 @ new"
      "distinct new"
      "set new = {x \<in> set rest. indegree ?s2 x = Some (int (count_list rest x))}"
      "results s' = results ?s2" "finished s' = finished ?s2" "started s' = started ?s2"
      "rt s' = rt ?s2" "completed s' = completed ?s2"
      by blast
    have u: "unlock E (d # rest) s = Inr s'"
      using k True IH(1) by simp
    have i: "indegree s' = (\<lambda>x. map_option (\<lambda>k. k - int (count_list (d # rest) x)) (indegree s x))"
      unfolding IH(2) using k k1 c0 by (auto simp: fun_eq_iff)
    have f: "futures s' = futures s @ map (\<lambda>n. (n, Queued (payload E (results s) n))) (d # new)"
      unfolding IH(3) by simp
    have sb: "submitted s' = submitted s @ (d # new)"
      unfolding IH(4) by simp
    have dnew: "distinct (d # new)" using IH(5) IH(6) dn by auto
    have sn: "set (d # new) = {x \<in> set (d # rest). indegree s x = Some (int (count_list (d # rest) x))}"
      unfolding list.set IH(6) using k k1 c0 dn by auto
    show ?thesis
      using u i f sb dnew sn IH(7-11) by (intro exI [of _ s'] exI [of _ "d # new"]) simp
  next
    case False
    have pre: "\<forall>x\<in>set rest. \<exists>j. indegree ?s1 x = Some j \<and> int (count_list rest x) \<le> j"
    proof
      fix x assume x: "x \<in> set rest"
      from Cons.prems x obtain j where "indegree s x = Some j" "int (count_list (d # rest) x) \<le> j"
        by auto
      then show "\<exists>j. indegree ?s1 x = Some j \<and> int (count_list rest x) \<le> j"
        using k by (cases "x = d") auto
    qed
    from Cons.IH [OF pre] obtain s' new where IH:
      "unlock E rest ?s1 = Inr s'"
      "indegree s' = (\<lambda>x. map_option (\<lambda>k. k - int (count_list rest x)) (indegree ?s1 x))"
      "futures s' = futures ?s1 @ map (\<lambda>n. (n, Queued (payload E (results ?s1) n))) new"
      "submitted s' = submitted ?s1 @ new"
      "distinct new"
      "set new = {x \<in> set rest. indegree ?s1 x = Some (int (count_list rest x))}"
      "results s' = results ?s1" "finished s' = finished ?s1" "started s' = started ?s1"
      "rt s' = rt ?s1" "completed s' = completed ?s1"
      by blast
    have u: "unlock E (d # rest) s = Inr s'"
      using k False IH(1) by simp
    have i: "indegree s' = (\<lambda>x. map_option (\<lambda>k. k - int (count_list (d # rest) x)) (indegree s x))"
      unfolding IH(2) using k by (auto simp: fun_eq_iff)
    have sn: "set new = {x \<in> set (d # rest). indegree s x = Some (int (count_list (d # rest) x))}"
      unfolding IH(6) using k False by (auto simp: count_list_0_iff)
    show ?thesis
      using u i sn IH(3-5) IH(7-11) by (intro exI [of _ s'] exI [of _ new]) simp
  qed
qed

lemma wf_sum_le:
  assumes wf: "wf_engine E" and d: "d \<in> set (nodes E)" and A: "A \<subseteq> set (nodes E)"
  shows "(\<Sum>u\<in>A. count_list (downs E u) d) \<le> length (ups E d)"
proof -
  have "(\<Sum>u\<in>A. count_list (downs E u) d) = (\<Sum>u\<in>A. count_list (ups E d) u)"
    using wf d A by (intro sum.cong) (auto simp: wf_engine_def)
  also have "\<dots> \<le> (\<Sum>u\<in>set (nodes E). count_list (ups E d) u)"
    using A by (intro sum_mono2) auto
  also have "\<dots> = length (ups E d)"
    using wf d by (intro sum_count_set) (auto simp: wf_engine_def)
  finally show ?thesis .
qed

lemma fold_submit_fields:
  "indegree (fold (submit E) xs s) = indegree s"
  "results (fold (submit E) xs s) = results s"
  "futures (fold (submit E) xs s) = futures s @ map (\<lambda>n. (n, Queued (payload E (results s) n))) xs"
  "submitted (fold (submit E) xs s) = submitted s @ xs"
  "started (fold (submit E) xs s) = started s"
  "finished (fold (submit E) xs s) = finished s"
  "rt (fold (submit E) xs s) = rt s"
  "completed (fold (submit E) xs s) = completed s"
  by (induction xs arbitrary: s) simp_all

lemma map_of_graph: "map_of (map (\<lambda>t. (t, f t)) xs) = (\<lambda>t. if t \<in> set xs then Some (f t) else None)"
  by (induction xs) (auto simp: fun_eq_iff)

lemma init_state_fields:
  "indegree (init_state E r) = (\<lambda>t. if t \<in> set (nodes E) then Some (int (length (ups E t))) else None)"
  "results (init_state E r) = Map.empty"
  "submitted (init_state E r) = filter (\<lambda>t. ups E t = []) (nodes E)"
  "futures (init_state E r) =
     map (\<lambda>n. (n, Queued (payload E Map.empty n))) (filter (\<lambda>t. ups E t = []) (nodes E))"
  "started (init_state E r) = []"
  "finished (init_state E r) = []"
  "rt (init_state E r) = r"
  "completed (init_state E r) = 0"
proof -
  have eq: "filter (\<lambda>t. (if t \<in> set (nodes E) then Some (int (length (ups E t))) else None) = Some 0) (nodes E)
      = filter (\<lambda>t. ups E t = []) (nodes E)"
    by (rule filter_cong) auto
  show "indegree (init_state E r) = (\<lambda>t. if t \<in> set (nodes E) then Some (int (length (ups E t))) else None)"
    "results (init_state E r) = Map.empty"
    "submitted (init_state E r) = filter (\<lambda>t. ups E t = []) (nodes E)"
    "futures (init_state E r) =
     map (\<lambda>n. (n, Queued (payload E Map.empty n))) (filter (\<lambda>t. ups E t = []) (nodes E))"
    "started (init_state E r) = []"
    "finished (init_state E r) = []"
    "rt (init_state E r) = r"
    "completed (init_state E r) = 0"
    by (simp_all add: init_state_def Let_def fold_submit_fields map_of_graph eq)
qed

lemma Inv_init: "wf_engine E \<Longrightarrow> Inv E (init_state E r)"
  by (auto simp: Inv_def init_state_fields wf_engine_def comp_def)


lemma run_future_fields:
  "indegree (run_future E i n a s) = indegree s"
  "results (run_future E i n a s) = results s"
  "futures (run_future E i n a s) = (futures s)[i := (n, Done (fst (worker E n a (results s) (rt s))))]"
  "submitted (run_future E i n a s) = submitted s"
  "started (run_future E i n a s) = started s @ [n]"
  "finished (run_future E i n a s) = finished s"
  "rt (run_future E i n a s) = snd (worker E n a (results s) (rt s))"
  "completed (run_future E i n a s) = completed s"
  by (simp_all add: run_future_def split_beta)

lemma map_fst_update:
  "i < length fs \<Longrightarrow> fst (fs ! i) = n \<Longrightarrow> map fst (fs[i := (n, x)]) = map fst fs"
  by (simp add: map_update list_update_same_conv)

lemma Inv_finished_nodes: "Inv E s \<Longrightarrow> set (finished s) \<subseteq> set (nodes E)"
proof -
  assume I: "Inv E s"
  then have "mset (finished s) \<subseteq># mset (submitted s)"
    unfolding Inv_def by (metis mset_subset_eq_add_right)
  then have "set (finished s) \<subseteq> set (submitted s)"
    by (metis set_mset_mono set_mset_mset)
  with I show ?thesis unfolding Inv_def by blast
qed

lemma Inv_future_node:
  assumes I: "Inv E s" and i: "i < length (futures s)" and n: "fst (futures s ! i) = n"
  shows "n \<in> set (submitted s)" "n \<in> set (nodes E)" "n \<notin> set (finished s)"
proof -
  have m: "mset (map fst (futures s)) + mset (finished s) = mset (submitted s)"
    using I by (simp add: Inv_def)
  have nf: "n \<in> set (map fst (futures s))" using i n by (metis length_map nth_map nth_mem)
  then have "n \<in># mset (submitted s)" using m by (metis in_multiset_in_set union_iff)
  then show sub: "n \<in> set (submitted s)" by simp
  then show "n \<in> set (nodes E)" using I by (auto simp: Inv_def)
  have d: "distinct (submitted s)" using I by (simp add: Inv_def)
  show "n \<notin> set (finished s)"
  proof
    assume "n \<in> set (finished s)"
    then have "1 \<le> count (mset (finished s)) n"
      by (metis count_greater_eq_one_iff set_mset_mset)
    moreover have "1 \<le> count (mset (map fst (futures s))) n"
      using nf by (metis count_greater_eq_one_iff set_mset_mset)
    ultimately have "count (mset (map fst (futures s)) + mset (finished s)) n \<ge> 2"
      by (simp only: count_union)
    then have "count (mset (submitted s)) n \<ge> 2" by (simp only: m)
    moreover have "count (mset (submitted s)) n \<le> 1"
      using d by (simp add: distinct_count_atmost_1)
    ultimately show False by simp
  qed
qed

lemma Inv_run_future:
  assumes I: "Inv E s" and i: "i < length (futures s)" and n: "futures s ! i = (n, Queued a)"
  shows "Inv E (run_future E i n a s)"
proof -
  have fn: "fst (futures s ! i) = n" using n by simp
  have "n \<in> set (submitted s)" using Inv_future_node(1) [OF I i fn] .
  then show ?thesis
    using I by (simp add: Inv_def run_future_fields map_fst_update [OF i fn])
qed

lemma Inv_Safe:
  assumes wf: "wf_engine E" and I: "Inv E s"
  shows "Safe E s"
proof -
  have F: "set (finished s) \<subseteq> set (nodes E)" by (rule Inv_finished_nodes [OF I])
  have "mset (finished s) \<subseteq># mset (submitted s)"
    using I unfolding Inv_def by (metis mset_subset_eq_add_right)
  then have FS: "set (finished s) \<subseteq> set (submitted s)"
    by (metis set_mset_mono set_mset_mset)
  have U: "\<forall>d\<in>set (submitted s). set (ups E d) \<subseteq> set (finished s)"
  proof (intro ballI subsetI)
    fix d u assume d: "d \<in> set (submitted s)" and u: "u \<in> set (ups E d)"
    have dn: "d \<in> set (nodes E)" using I d by (auto simp: Inv_def)
    have un: "u \<in> set (nodes E)" using wf dn u by (auto simp: wf_engine_def)
    have z: "indegree s d = Some 0" using I d dn by (auto simp: Inv_def)
    have "indegree s d = Some (int (length (ups E d)) - int (\<Sum>u\<in>set (finished s). count_list (downs E u) d))"
      using I dn by (auto simp: Inv_def)
    with z have "int (\<Sum>u\<in>set (finished s). count_list (downs E u) d) = int (length (ups E d))"
      by simp
    then have eq: "(\<Sum>u\<in>set (finished s). count_list (downs E u) d) = length (ups E d)"
      by (simp only: of_nat_eq_iff)
    show "u \<in> set (finished s)"
    proof (rule ccontr)
      assume nu: "u \<notin> set (finished s)"
      have "(\<Sum>u\<in>insert u (set (finished s)). count_list (downs E u) d) \<le> length (ups E d)"
        using wf dn un F by (intro wf_sum_le) auto
      then have "count_list (downs E u) d = 0" using nu eq by simp
      then have "count_list (ups E d) u = 0" using wf un dn by (simp add: wf_engine_def)
      then show False using u by (simp add: count_list_0_iff)
    qed
  qed
  have "mset (map fst (futures s)) \<subseteq># mset (submitted s)"
    using I unfolding Inv_def by (metis mset_subset_eq_add_left)
  then have QS: "fst ` set (futures s) \<subseteq> set (submitted s)"
    by (metis set_mset_mono set_mset_mset set_map)
  have Z: "\<forall>d\<in>set (submitted s). indegree s d = Some 0"
    using I by (auto simp: Inv_def)
  show ?thesis using I FS U QS Z by (simp add: Safe_def Inv_def)
qed


lemma mset_pop:
  "i < length xs \<Longrightarrow> mset (take i xs @ drop (Suc i) xs) + {#xs ! i#} = mset xs"
  by (metis add_mset_add_single id_take_nth_drop mset.simps(2) mset_append union_mset_add_mset_right)

lemma Inv_complete:
  assumes wf: "wf_engine E" and I: "Inv E s" and i: "i < length (futures s)"
    and n: "fst (futures s ! i) = n"
  shows "\<exists>s' new. complete E i n (Inr v) s = Inr s' \<and> Inv E s'
     \<and> results s' = (if keep E v then (results s)(key E n \<mapsto> v) else results s)
     \<and> finished s' = finished s @ [n] \<and> rt s' = rt s \<and> started s' = started s
     \<and> submitted s' = submitted s @ new
     \<and> futures s' = take i (futures s) @ drop (Suc i) (futures s)
          @ map (\<lambda>d. (d, Queued (payload E (results s') d))) new
     \<and> set new = {d \<in> set (downs E n). indegree s d = Some (int (count_list (downs E n) d))}"
proof -
  define R where "R = (if keep E v then (results s)(key E n \<mapsto> v) else results s)"
  define s0 where "s0 = s\<lparr>futures := take i (futures s) @ drop (Suc i) (futures s),
      results := R, completed := completed s + 1, finished := finished s @ [n]\<rparr>"
  have c: "complete E i n (Inr v) s = unlock E (downs E n) s0"
    by (simp add: complete_def s0_def R_def)
  have s0f: "indegree s0 = indegree s" "results s0 = R" "submitted s0 = submitted s"
    "futures s0 = take i (futures s) @ drop (Suc i) (futures s)"
    "finished s0 = finished s @ [n]" "started s0 = started s" "rt s0 = rt s"
    by (simp_all add: s0_def)
  have nn: "n \<in> set (nodes E)" and nF: "n \<notin> set (finished s)" and nS: "n \<in> set (submitted s)"
    using Inv_future_node [OF I i n] by auto
  have F: "set (finished s) \<subseteq> set (nodes E)" by (rule Inv_finished_nodes [OF I])
  have dn: "set (downs E n) \<subseteq> set (nodes E)" using wf nn by (auto simp: wf_engine_def)
  have ind: "\<And>d. d \<in> set (nodes E) \<Longrightarrow> indegree s d =
      Some (int (length (ups E d)) - int (\<Sum>u\<in>set (finished s). count_list (downs E u) d))"
    using I by (auto simp: Inv_def)
  have room: "\<And>d. d \<in> set (nodes E) \<Longrightarrow>
      (\<Sum>u\<in>set (finished s). count_list (downs E u) d) + count_list (downs E n) d \<le> length (ups E d)"
  proof -
    fix d assume d: "d \<in> set (nodes E)"
    have "(\<Sum>u\<in>insert n (set (finished s)). count_list (downs E u) d) \<le> length (ups E d)"
      using wf d nn F by (intro wf_sum_le) auto
    then show "(\<Sum>u\<in>set (finished s). count_list (downs E u) d) + count_list (downs E n) d \<le> length (ups E d)"
      using nF by simp
  qed
  have room_int: "\<And>d. d \<in> set (nodes E) \<Longrightarrow>
      int (count_list (downs E n) d)
        \<le> int (length (ups E d)) - int (\<Sum>u\<in>set (finished s). count_list (downs E u) d)"
  proof -
    fix d assume d: "d \<in> set (nodes E)"
    have "int ((\<Sum>u\<in>set (finished s). count_list (downs E u) d) + count_list (downs E n) d)
        \<le> int (length (ups E d))"
      using room [OF d] by (simp only: of_nat_le_iff)
    then show "int (count_list (downs E n) d)
        \<le> int (length (ups E d)) - int (\<Sum>u\<in>set (finished s). count_list (downs E u) d)"
      by (simp only: of_nat_add)
  qed
  have pre: "\<forall>d\<in>set (downs E n). \<exists>k. indegree s0 d = Some k \<and> int (count_list (downs E n) d) \<le> k"
  proof
    fix d assume "d \<in> set (downs E n)"
    then have d: "d \<in> set (nodes E)" using dn by auto
    show "\<exists>k. indegree s0 d = Some k \<and> int (count_list (downs E n) d) \<le> k"
      using ind [OF d] room_int [OF d] by (simp only: s0f) blast
  qed
  from unlock_effect [OF pre, of E] obtain s' new where U:
    "unlock E (downs E n) s0 = Inr s'"
    "indegree s' = (\<lambda>d. map_option (\<lambda>k. k - int (count_list (downs E n) d)) (indegree s0 d))"
    "futures s' = futures s0 @ map (\<lambda>n. (n, Queued (payload E (results s0) n))) new"
    "submitted s' = submitted s0 @ new"
    "distinct new"
    "set new = {d \<in> set (downs E n). indegree s0 d = Some (int (count_list (downs E n) d))}"
    "results s' = results s0" "finished s' = finished s0" "started s' = started s0"
    "rt s' = rt s0" "completed s' = completed s0"
    by blast
  have sub_iff: "\<And>d. d \<in> set (nodes E) \<Longrightarrow> d \<in> set (submitted s) \<longleftrightarrow> indegree s d = Some 0"
    using I by (auto simp: Inv_def)
  have new_fresh: "set new \<inter> set (submitted s) = {}"
  proof (rule ccontr)
    assume "set new \<inter> set (submitted s) \<noteq> {}"
    then obtain d where d: "d \<in> set new" "d \<in> set (submitted s)" by auto
    from d(1) U(6) have dd: "d \<in> set (downs E n)"
      and k: "indegree s d = Some (int (count_list (downs E n) d))" by (auto simp: s0f)
    have "d \<in> set (nodes E)" using dd dn by auto
    then have "indegree s d = Some 0" using sub_iff d(2) by auto
    with k have "count_list (downs E n) d = 0" by simp
    with dd show False by (simp add: count_list_0_iff)
  qed
  have new_nodes: "set new \<subseteq> set (nodes E)" using U(6) dn by auto
  have I1: "distinct (submitted s')"
    using I U(5) new_fresh by (auto simp: U(4) s0f Inv_def)
  have I2: "set (submitted s') \<subseteq> set (nodes E)"
    using I new_nodes by (auto simp: U(4) s0f Inv_def)
  have m: "mset (map fst (futures s)) + mset (finished s) = mset (submitted s)"
    using I by (simp add: Inv_def)
  have pop: "mset (map fst (take i (futures s) @ drop (Suc i) (futures s))) + {#n#}
      = mset (map fst (futures s))"
  proof -
    have "mset (take i (map fst (futures s)) @ drop (Suc i) (map fst (futures s)))
        + {#map fst (futures s) ! i#} = mset (map fst (futures s))"
      using i by (intro mset_pop) simp
    then show ?thesis using i n by (simp add: take_map drop_map)
  qed
  have I3: "mset (map fst (futures s')) + mset (finished s') = mset (submitted s')"
  proof -
    have "mset (map fst (futures s')) + mset (finished s')
        = (mset (map fst (take i (futures s) @ drop (Suc i) (futures s))) + {#n#})
          + mset (finished s) + mset new"
      by (simp add: U(3) U(8) s0f comp_def)
    also have "\<dots> = mset (submitted s) + mset new"
      by (simp only: pop m)
    finally show ?thesis by (simp add: U(4) s0f)
  qed
  have I4: "\<forall>d\<in>set (nodes E). indegree s' d =
      Some (int (length (ups E d)) - int (\<Sum>u\<in>set (finished s'). count_list (downs E u) d))"
  proof
    fix d assume d: "d \<in> set (nodes E)"
    have "(\<Sum>u\<in>set (finished s'). count_list (downs E u) d)
        = (\<Sum>u\<in>set (finished s). count_list (downs E u) d) + count_list (downs E n) d"
      using nF by (simp add: U(8) s0f)
    then have "int (\<Sum>u\<in>set (finished s'). count_list (downs E u) d)
        = int (\<Sum>u\<in>set (finished s). count_list (downs E u) d) + int (count_list (downs E n) d)"
      by (simp only: of_nat_add)
    moreover have "indegree s' d = map_option (\<lambda>k. k - int (count_list (downs E n) d)) (indegree s d)"
      by (simp add: U(2) s0f)
    ultimately show "indegree s' d =
      Some (int (length (ups E d)) - int (\<Sum>u\<in>set (finished s'). count_list (downs E u) d))"
      by (simp only: ind [OF d] option.map) (simp only: diff_diff_eq)
  qed
  have I5: "\<forall>d\<in>set (nodes E). d \<in> set (submitted s') \<longleftrightarrow> indegree s' d = Some 0"
  proof
    fix d assume d: "d \<in> set (nodes E)"
    obtain k where k: "indegree s d = Some k" using ind [OF d] by blast
    have z: "indegree s' d = Some 0 \<longleftrightarrow> k = int (count_list (downs E n) d)"
      using k by (auto simp: U(2) s0f)
    show "d \<in> set (submitted s') \<longleftrightarrow> indegree s' d = Some 0"
    proof (cases "d \<in> set (downs E n)")
      case True
      then have pos: "0 < count_list (downs E n) d"
        using count_list_0_iff [of "downs E n" d] by auto
      have "d \<notin> set (submitted s)"
      proof
        assume "d \<in> set (submitted s)"
        then have "k = 0" using sub_iff [OF d] k by simp
        moreover have "int (count_list (downs E n) d) \<le> k"
          using ind [OF d] room_int [OF d] k by (simp only: option.inject)
        ultimately show False using pos by simp
      qed
      then show ?thesis using True k z by (auto simp: U(4) U(6) s0f)
    next
      case False
      then have "count_list (downs E n) d = 0" by (simp add: count_list_0_iff)
      then show ?thesis using False k z sub_iff [OF d] by (auto simp: U(4) U(6) s0f)
    qed
  qed
  have I6: "set (started s') \<subseteq> set (submitted s')"
    using I by (auto simp: U(4) U(9) s0f Inv_def)
  have I7: "dom (results s') \<subseteq> key E ` set (finished s')"
    using I by (auto simp: U(7) U(8) s0f R_def Inv_def split: if_splits)
  have "Inv E s'" unfolding Inv_def using I1 I2 I3 I4 I5 I6 I7 by blast
  moreover have "results s' = (if keep E v then (results s)(key E n \<mapsto> v) else results s)"
    by (simp add: U(7) s0f R_def)
  moreover have "futures s' = take i (futures s) @ drop (Suc i) (futures s)
          @ map (\<lambda>d. (d, Queued (payload E (results s') d))) new"
    by (simp add: U(3) U(7) s0f)
  moreover have "set new = {d \<in> set (downs E n). indegree s d = Some (int (count_list (downs E n) d))}"
    using U(6) by (simp add: s0f)
  ultimately show ?thesis
    using c U(1) U(8) U(9) U(10) U(4) by (intro exI [of _ s'] exI [of _ new]) (simp add: s0f)
qed


lemma Safe_pop:
  "Safe E s \<Longrightarrow> Safe E (s\<lparr>futures := take i (futures s) @ drop (Suc i) (futures s)\<rparr>)"
  by (auto simp: Safe_def dest!: in_set_takeD in_set_dropD)

lemma Safe_run_future:
  assumes S: "Safe E s" and i: "i < length (futures s)" and n: "fst (futures s ! i) = n"
  shows "Safe E (run_future E i n a s)"
proof -
  have "n \<in> fst ` set (futures s)" using i n by (metis image_eqI nth_mem)
  then have "n \<in> set (submitted s)" using S by (auto simp: Safe_def)
  moreover have "fst ` set (futures (run_future E i n a s)) = fst ` set (futures s)"
    using map_fst_update [OF i n] by (metis run_future_fields(3) set_map)
  ultimately show ?thesis using S by (simp add: Safe_def run_future_fields)
qed

lemma drain_Safe:
  "Safe E s \<Longrightarrow> k \<le> length (futures s) \<Longrightarrow>
   Safe E (drain E k s) \<and> length (futures (drain E k s)) = length (futures s)
   \<and> results (drain E k s) = results s \<and> submitted (drain E k s) = submitted s
   \<and> finished (drain E k s) = finished s"
proof (induction k)
  case 0
  then show ?case by simp
next
  case (Suc k)
  then have IH: "Safe E (drain E k s)" "length (futures (drain E k s)) = length (futures s)"
    "results (drain E k s) = results s" "submitted (drain E k s) = submitted s"
    "finished (drain E k s) = finished s"
    by auto
  have k: "k < length (futures (drain E k s))" using Suc.prems IH(2) by simp
  obtain n f where nf: "futures (drain E k s) ! k = (n, f)" by (cases "futures (drain E k s) ! k")
  show ?case
  proof (cases f)
    case (Queued a)
    have "Safe E (run_future E k n a (drain E k s))"
      using Safe_run_future [OF IH(1) k] nf by simp
    then show ?thesis using nf Queued IH by (simp add: run_future_fields)
  next
    case (Done r)
    then show ?thesis using nf IH by simp
  qed
qed

lemma shutdown_Safe:
  "Safe E s \<Longrightarrow> Safe E (shutdown E s) \<and> results (shutdown E s) = results s
     \<and> submitted (shutdown E s) = submitted s \<and> finished (shutdown E s) = finished s"
  using drain_Safe [of E s "length (futures s)"] by (simp add: shutdown_def)

text \<open>One step from a state that satisfies the invariant.\<close>

lemma step_cases:
  assumes wf: "wf_engine E" and I: "Inv E s" and ne: "futures s \<noteq> []"
  obtains (Run) n a where "futures s ! (k mod length (futures s)) = (n, Queued a)"
      "step E k s = Inr (run_future E (k mod length (futures s)) n a s)"
      "Inv E (run_future E (k mod length (futures s)) n a s)"
  | (Fail) n e where "futures s ! (k mod length (futures s)) = (n, Done (Inl e))"
      "step E k s = Inl (e, s\<lparr>futures := take (k mod length (futures s)) (futures s)
                                  @ drop (Suc (k mod length (futures s))) (futures s)\<rparr>)"
  | (Ok) n v s' new where "futures s ! (k mod length (futures s)) = (n, Done (Inr v))"
      "step E k s = Inr s'" "Inv E s'"
      "results s' = (if keep E v then (results s)(key E n \<mapsto> v) else results s)"
      "finished s' = finished s @ [n]" "rt s' = rt s" "started s' = started s"
      "submitted s' = submitted s @ new"
      "futures s' = take (k mod length (futures s)) (futures s)
          @ drop (Suc (k mod length (futures s))) (futures s)
          @ map (\<lambda>d. (d, Queued (payload E (results s') d))) new"
      "set new = {d \<in> set (downs E n). indegree s d = Some (int (count_list (downs E n) d))}"
proof -
  let ?i = "k mod length (futures s)"
  have i: "?i < length (futures s)" using ne by simp
  obtain n f where nf: "futures s ! ?i = (n, f)" by (cases "futures s ! ?i")
  show thesis
  proof (cases f)
    case (Queued a)
    show thesis
      using Run [of n a] Inv_run_future [OF I i] nf Queued by (simp add: step_def)
  next
    case (Done r)
    show thesis
    proof (cases r)
      case (Inl e)
      show thesis using Fail [of n e] nf Done Inl by (simp add: step_def complete_def Let_def)
    next
      case (Inr v)
      have fn: "fst (futures s ! ?i) = n" using nf by simp
      from Inv_complete [OF wf I i fn, of v] obtain s' new where
        "complete E ?i n (Inr v) s = Inr s'" "Inv E s'"
        "results s' = (if keep E v then (results s)(key E n \<mapsto> v) else results s)"
        "finished s' = finished s @ [n]" "rt s' = rt s" "started s' = started s"
        "submitted s' = submitted s @ new"
        "futures s' = take ?i (futures s) @ drop (Suc ?i) (futures s)
            @ map (\<lambda>d. (d, Queued (payload E (results s') d))) new"
        "set new = {d \<in> set (downs E n). indegree s d = Some (int (count_list (downs E n) d))}"
        by blast
      then show thesis using Ok [of n v s' new] nf Done Inr by (simp add: step_def)
    qed
  qed
qed

lemma run_loop_Inv:
  assumes wf: "wf_engine E"
  shows "Inv E s \<Longrightarrow>
    Safe E (snd (run_loop E sched s)) \<and>
    (fst (run_loop E sched s) = Running \<or> fst (run_loop E sched s) = Returned
       \<longrightarrow> Inv E (snd (run_loop E sched s)))"
proof (induction sched arbitrary: s)
  case Nil
  then show ?case using Inv_Safe [OF wf] by simp
next
  case (Cons k ks)
  show ?case
  proof (cases "futures s = []")
    case True
    then show ?thesis using Cons.prems Inv_Safe [OF wf] by simp
  next
    case False
    from wf Cons.prems False show ?thesis
    proof (cases rule: step_cases [where k = k])
      case (Run n a)
      then show ?thesis using Cons.IH [OF Run(3)] False by simp
    next
      case (Fail n e)
      have "Safe E (s\<lparr>futures := take (k mod length (futures s)) (futures s)
                                  @ drop (Suc (k mod length (futures s))) (futures s)\<rparr>)"
        using Safe_pop [OF Inv_Safe [OF wf Cons.prems]] .
      then have "Safe E (shutdown E (s\<lparr>futures := take (k mod length (futures s)) (futures s)
                                  @ drop (Suc (k mod length (futures s))) (futures s)\<rparr>))"
        using shutdown_Safe by blast
      then show ?thesis using Fail False by simp
    next
      case (Ok n v s' new)
      then show ?thesis using Cons.IH [OF Ok(3)] False by simp
    qed
  qed
qed

text \<open>Results are only ever added.\<close>

lemma run_loop_results_mono:
  assumes wf: "wf_engine E" and inj: "inj_on (key E) (set (nodes E))"
  shows "Inv E s \<Longrightarrow> results s \<subseteq>\<^sub>m results (snd (run_loop E sched s))"
proof (induction sched arbitrary: s)
  case Nil
  show ?case by simp
next
  case (Cons k ks)
  show ?case
  proof (cases "futures s = []")
    case True
    then show ?thesis by simp
  next
    case False
    from wf Cons.prems False show ?thesis
    proof (cases rule: step_cases [where k = k])
      case (Run n a)
      have "results (run_future E (k mod length (futures s)) n a s) = results s"
        by (simp add: run_future_fields)
      then show ?thesis using Cons.IH [OF Run(3)] Run(2) False by simp
    next
      case (Fail n e)
      have "Safe E (s\<lparr>futures := take (k mod length (futures s)) (futures s)
                                  @ drop (Suc (k mod length (futures s))) (futures s)\<rparr>)"
        using Safe_pop [OF Inv_Safe [OF wf Cons.prems]] .
      then have "results (shutdown E (s\<lparr>futures := take (k mod length (futures s)) (futures s)
                                  @ drop (Suc (k mod length (futures s))) (futures s)\<rparr>)) = results s"
        using shutdown_Safe by fastforce
      then show ?thesis using Fail False by simp
    next
      case (Ok n v s' new)
      have i: "k mod length (futures s) < length (futures s)" using False by simp
      have fn: "fst (futures s ! (k mod length (futures s))) = n" using Ok(1) by simp
      have nn: "n \<in> set (nodes E)" and nF: "n \<notin> set (finished s)"
        using Inv_future_node [OF Cons.prems i fn] by auto
      have F: "set (finished s) \<subseteq> set (nodes E)" by (rule Inv_finished_nodes [OF Cons.prems])
      have "key E n \<notin> key E ` set (finished s)"
      proof
        assume "key E n \<in> key E ` set (finished s)"
        then obtain m where m: "m \<in> set (finished s)" "key E n = key E m" by auto
        then have "n = m" using inj nn F by (auto dest: inj_onD)
        with m nF show False by simp
      qed
      then have "results s (key E n) = None"
        using Cons.prems by (auto simp: Inv_def)
      then have "results s \<subseteq>\<^sub>m results s'"
        using Ok(4) by (auto simp: map_le_def)
      moreover have "results s' \<subseteq>\<^sub>m results (snd (run_loop E ks s'))"
        using Cons.IH [OF Ok(3)] .
      ultimately show ?thesis using Ok(2) False by (auto intro: map_le_trans)
    qed
  qed
qed


lemma wf_sum_eq:
  assumes wf: "wf_engine E" and d: "d \<in> set (nodes E)"
  shows "(\<Sum>u\<in>set (nodes E). count_list (downs E u) d) = length (ups E d)"
proof -
  have "(\<Sum>u\<in>set (nodes E). count_list (downs E u) d) = (\<Sum>u\<in>set (nodes E). count_list (ups E d) u)"
    using wf d by (intro sum.cong) (auto simp: wf_engine_def)
  also have "\<dots> = length (ups E d)"
    using wf d by (intro sum_count_set) (auto simp: wf_engine_def)
  finally show ?thesis .
qed




lemma load_Nil [simp]: "load [] = 0"
  by (simp add: load_def)

lemma load_Cons [simp]:
  "load (x # xs) = (case snd x of Queued a \<Rightarrow> 2 | Done r \<Rightarrow> 1) + load xs"
  by (simp add: load_def)








section \<open>The three front-ends\<close>

lemma concat_absent:
  "t \<notin> set ys \<Longrightarrow> concat (map (\<lambda>x. if x = t then f x else []) ys) = []"
  by (induction ys) auto

lemma DAG_adj_eq:
  "distinct tasks \<Longrightarrow> t \<in> set tasks \<Longrightarrow> DAG_adj heap tasks t = downstream (heap t)"
proof (induction tasks)
  case Nil
  then show ?case by simp
next
  case (Cons x xs)
  show ?case
  proof (cases "x = t")
    case True
    then have "t \<notin> set xs" using Cons.prems by simp
    then show ?thesis using True concat_absent [of t xs "\<lambda>x. downstream (heap x)"]
      by (simp add: DAG_adj_def)
  next
    case False
    then show ?thesis using Cons by (simp add: DAG_adj_def)
  qed
qed

lemma DAG_engine_fields [simp]:
  "nodes (DAG_engine draw heap tasks) = tasks"
  "ups (DAG_engine draw heap tasks) = (\<lambda>t. upstream (heap t))"
  "downs (DAG_engine draw heap tasks) = DAG_adj heap tasks"
  "key (DAG_engine draw heap tasks) = (\<lambda>t. name (heap t))"
  "payload (DAG_engine draw heap tasks) = DAG_args heap"
  "worker (DAG_engine draw heap tasks) = (\<lambda>t args res s. Task_call draw (heap t) args [] s)"
  "keep (DAG_engine draw heap tasks) = (\<lambda>v. v \<noteq> PyNone)"
  by (simp_all add: DAG_engine_def)

lemma Flow_engine_fields [simp]:
  "nodes (Flow_engine draw heap fl ts) = ts"
  "ups (Flow_engine draw heap fl ts) = reverse_graph fl"
  "downs (Flow_engine draw heap fl ts) = graph fl"
  "key (Flow_engine draw heap fl ts) = (\<lambda>t. name (heap t))"
  "payload (Flow_engine draw heap fl ts) = (\<lambda>res t. res)"
  "worker (Flow_engine draw heap fl ts) = (\<lambda>t kw res s. Flow_execute_task draw (heap t) kw s)"
  "keep (Flow_engine draw heap fl ts) = (\<lambda>v. v \<noteq> PyNone)"
  by (simp_all add: Flow_engine_def)

lemma wf_DAG_engine: "wf_registry heap tasks \<Longrightarrow> wf_engine (DAG_engine draw heap tasks)"
  by (auto simp: wf_registry_def wf_engine_def DAG_adj_eq)

lemma wf_Flow_engine: "wf_flow fl ts \<Longrightarrow> wf_engine (Flow_engine draw heap fl ts)"
  by (auto simp: wf_flow_def wf_engine_def)

lemma run_loop_append:
  "run_loop E (a @ b) s =
     (if fst (run_loop E a s) = Running then run_loop E b (snd (run_loop E a s)) else run_loop E a s)"
proof (induction a arbitrary: s)
  case Nil
  show ?case by (cases b) auto
next
  case (Cons k ks)
  show ?case
  proof (cases "futures s = []")
    case True
    then show ?thesis by simp
  next
    case False
    then show ?thesis using Cons by (auto split: sum.splits)
  qed
qed

lemma run_loop_results_prefix:
  assumes wf: "wf_engine E" and inj: "inj_on (key E) (set (nodes E))" and I: "Inv E s"
  shows "results (snd (run_loop E a s)) \<subseteq>\<^sub>m results (snd (run_loop E (a @ b) s))"
proof (cases "fst (run_loop E a s) = Running")
  case True
  then have "Inv E (snd (run_loop E a s))" using run_loop_Inv [OF wf I] by blast
  then show ?thesis
    using run_loop_results_mono [OF wf inj] True by (simp add: run_loop_append)
next
  case False
  then show ?thesis by (simp add: run_loop_append)
qed

text \<open>
  Claim C9. In one run of \<open>DAG.run\<close> or \<open>Flow.run\<close> over a well-formed graph whose
  node names are unique, whatever the order of completion, no node is passed to
  \<open>pool.submit\<close> twice, and an entry of the Result Store, once written, keeps its value
  for the rest of the run: the store after any part of a schedule is contained in
  the store after a longer part.
\<close>

theorem at_most_once:
  "(wf_registry heap tasks \<and> inj_on (\<lambda>t. name (heap t)) (set tasks) \<longrightarrow>
      distinct (submitted (snd (DAG_pool draw heap tasks sched r))) \<and>
      results (snd (DAG_pool draw heap tasks sched r))
        \<subseteq>\<^sub>m results (snd (DAG_pool draw heap tasks (sched @ rest) r))) \<and>
   (wf_flow fl all_tasks \<and> inj_on (\<lambda>t. name (heap t)) (set all_tasks) \<longrightarrow>
      distinct (submitted (snd (Flow_pool draw heap fl all_tasks sched r))) \<and>
      results (snd (Flow_pool draw heap fl all_tasks sched r))
        \<subseteq>\<^sub>m results (snd (Flow_pool draw heap fl all_tasks (sched @ rest) r)))"
proof (intro conjI impI)
  assume a: "wf_registry heap tasks \<and> inj_on (\<lambda>t. name (heap t)) (set tasks)"
  let ?E = "DAG_engine draw heap tasks"
  have wf: "wf_engine ?E" using a wf_DAG_engine by blast
  have inj: "inj_on (key ?E) (set (nodes ?E))" using a by simp
  have I: "Inv ?E (init_state ?E r)" by (rule Inv_init [OF wf])
  show "distinct (submitted (snd (DAG_pool draw heap tasks sched r)))"
    using run_loop_Inv [OF wf I, of sched] by (simp add: DAG_pool_def Safe_def)
  show "results (snd (DAG_pool draw heap tasks sched r))
        \<subseteq>\<^sub>m results (snd (DAG_pool draw heap tasks (sched @ rest) r))"
    unfolding DAG_pool_def by (rule run_loop_results_prefix [OF wf inj I])
next
  assume a: "wf_flow fl all_tasks \<and> inj_on (\<lambda>t. name (heap t)) (set all_tasks)"
  let ?E = "Flow_engine draw heap fl all_tasks"
  have wf: "wf_engine ?E" using a wf_Flow_engine by blast
  have inj: "inj_on (key ?E) (set (nodes ?E))" using a by simp
  have I: "Inv ?E (init_state ?E r)" by (rule Inv_init [OF wf])
  show "distinct (submitted (snd (Flow_pool draw heap fl all_tasks sched r)))"
    using run_loop_Inv [OF wf I, of sched] by (simp add: Flow_pool_def Safe_def)
  show "results (snd (Flow_pool draw heap fl all_tasks sched r))
        \<subseteq>\<^sub>m results (snd (Flow_pool draw heap fl all_tasks (sched @ rest) r))"
    unfolding Flow_pool_def by (rule run_loop_results_prefix [OF wf inj I])
qed


lemma Functional_engine_fields [simp]:
  "nodes (Functional_engine draw G) = all_nodes G"
  "ups (Functional_engine draw G) = rev_graph G"
  "downs (Functional_engine draw G) = fwd G"
  "key (Functional_engine draw G) = node_name"
  "payload (Functional_engine draw G) = (\<lambda>res n. ())"
  "worker (Functional_engine draw G) = (\<lambda>n a res s. execute_node draw n res s)"
  "keep (Functional_engine draw G) = (\<lambda>v. True)"
  by (simp_all add: Functional_engine_def)

lemma unlock_results: "results (after (unlock E ds s)) = results s"
  by (induction ds arbitrary: s) (auto simp: after_def Let_def split: option.splits)

lemma complete_results:
  "results (after (complete E i n (Inr v) s)) =
     (if keep E v then (results s)(key E n \<mapsto> v) else results s)"
  by (simp add: complete_def Let_def unlock_results)

lemma filter_kwargs_keys:
  "map fst (filter_kwargs ps res) = filter (\<lambda>p. p \<in> dom res) ps"
  by (induction ps) (auto split: option.splits)

lemma filter_kwargs_map_of:
  "map_of (filter_kwargs ps res) p = (if p \<in> set ps then res p else None)"
  by (induction ps) (auto split: option.splits)

lemma filter_kwargs_empty_iff:
  "filter_kwargs ps res = [] \<longleftrightarrow> \<not> (\<exists>p\<in>set ps. p \<in> dom res)"
  by (induction ps) (auto split: option.splits)

lemma filter_kwargs_empty [simp]: "filter_kwargs ps Map.empty = []"
  by (induction ps) auto

lemma Flow_execute_task_eq:
  "Flow_execute_task draw t res s =
     (if filter_kwargs (params t) res = [] then Task_call draw t [] [] s
      else raw_call t (filter_kwargs (params t) res) s)"
  by (auto simp: Flow_execute_task_def Let_def)

lemma raw_call_eq:
  "raw_call t kw s =
     (fst (func t [] kw (world s)),
      s\<lparr>world := snd (func t [] kw (world s)), trace := trace s @ [Invoke (name t) [] kw]\<rparr>)"
  by (simp add: raw_call_def emit_def split_beta)


text \<open>
  Claim C7. In \<open>Flow._execute_task\<close> and \<open>FunctionalFlow._execute_node\<close> (for a node
  with inputs), as soon as one declared parameter has an entry in the results
  handed over, the wrapped function itself is called once with the matching keyword
  arguments: whatever it returns or raises is the outcome, nothing is logged, no
  retry happens and the \<open>when\<close> predicate is not consulted. \<open>Task.__call__\<close>, with its
  retry loop and its condition, is used only when no parameter matches, or when a
  functional node has no inputs.
\<close>

theorem raw_function_bypasses_policy:
  "((\<exists>p\<in>set (params t). p \<in> dom res) \<longrightarrow>
       Flow_execute_task draw t res s =
         (fst (func t [] (filter_kwargs (params t) res) (world s)),
          s\<lparr>world := snd (func t [] (filter_kwargs (params t) res) (world s)),
            trace := trace s @ [Invoke (name t) [] (filter_kwargs (params t) res)]\<rparr>))
   \<and> (\<not> (\<exists>p\<in>set (params t). p \<in> dom res) \<longrightarrow>
       Flow_execute_task draw t res s = Task_call draw t [] [] s)
   \<and> (inputs node \<noteq> [] \<and> (\<exists>p\<in>set (params (node_task node)). p \<in> dom res) \<longrightarrow>
       execute_node draw node res s =
         (fst (func (node_task node) [] (filter_kwargs (params (node_task node)) res) (world s)),
          s\<lparr>world := snd (func (node_task node) [] (filter_kwargs (params (node_task node)) res) (world s)),
            trace := trace s @
              [Invoke (name (node_task node)) [] (filter_kwargs (params (node_task node)) res)]\<rparr>))
   \<and> (inputs node = [] \<or> \<not> (\<exists>p\<in>set (params (node_task node)). p \<in> dom res) \<longrightarrow>
       execute_node draw node res s = Task_call draw (node_task node) [] [] s)"
proof -
  have a: "filter_kwargs (params t) res = [] \<longleftrightarrow> \<not> (\<exists>p\<in>set (params t). p \<in> dom res)"
    by (rule filter_kwargs_empty_iff)
  have b: "filter_kwargs (params (node_task node)) res = []
      \<longleftrightarrow> \<not> (\<exists>p\<in>set (params (node_task node)). p \<in> dom res)"
    by (rule filter_kwargs_empty_iff)
  show ?thesis
    using a b by (simp add: Flow_execute_task_eq execute_node_def Let_def raw_call_eq)
qed

text \<open>
  Claim C10. When the loop of \<open>DAG.run\<close> or \<open>Flow.run\<close> handles a completed future
  whose result is \<open>None\<close>, the Result Store stays as it was, and any other result is
  stored under the name of the task. A task skipped by its condition and a task whose
  body returns \<open>None\<close> both complete with \<open>None\<close>, so the store cannot tell them
  apart. The loop of \<open>FunctionalFlow.run\<close> writes every result, \<open>None\<close> included,
  under the name of the node.
\<close>

theorem none_results:
  "results (after (complete (DAG_engine draw heap tasks) i n (Inr PyNone) s)) = results s
   \<and> (v \<noteq> PyNone \<longrightarrow>
        results (after (complete (DAG_engine draw heap tasks) i n (Inr v) s))
          = (results s)(name (heap n) \<mapsto> v))
   \<and> results (after (complete (Flow_engine draw heap fl ts) j m (Inr PyNone) s')) = results s'
   \<and> (v \<noteq> PyNone \<longrightarrow>
        results (after (complete (Flow_engine draw heap fl ts) j m (Inr v) s'))
          = (results s')(name (heap m) \<mapsto> v))
   \<and> results (after (complete (Functional_engine draw G) k node (Inr v) s''))
        = (results s'')(node_name node \<mapsto> v)
   \<and> (\<not> will_run t args \<longrightarrow> fst (Task_call draw t args kw r) = Inr PyNone)
   \<and> (will_run t args \<and> fst (func t args kw (world (emit (LogTaskStart (name t)) r))) = Inr PyNone
        \<longrightarrow> fst (Task_call draw t args kw r) = Inr PyNone)"
proof -
  have "fst (Task_call draw t args kw r) = Inr PyNone"
    if w: "will_run t args"
      and f: "fst (func t args kw (world (emit (LogTaskStart (name t)) r))) = Inr PyNone"
  proof -
    obtain w' where "func t args kw (world (emit (LogTaskStart (name t)) r)) = (Inr PyNone, w')"
      using f by (metis prod.collapse)
    then show ?thesis
      using Task_call_run [OF w] retry_loop_success by (metis fst_conv)
  qed
  then show ?thesis
    by (simp add: complete_results Task_call_skip)
qed

section \<open>The graph built by \<open>_build_graph\<close>\<close>

lemma as_applied_fields [simp]:
  "all_nodes (snd (as_applied n g)) = all_nodes g"
  "fwd (snd (as_applied n g)) = fwd g"
  "rev_graph (snd (as_applied n g)) = rev_graph g"
  by (cases n; simp)+

lemma as_applied_idem [simp]:
  "as_applied (fst (as_applied n g)) g' = (fst (as_applied n g), g')"
  by (cases n) simp_all

lemma traverse_old:
  "fst (as_applied node g) \<in> set (all_nodes g) \<Longrightarrow> traverse node g = snd (as_applied node g)"
  by (subst traverse.simps) (simp add: Let_def)

lemma traverse_new:
  "fst (as_applied node g) \<notin> set (all_nodes g) \<Longrightarrow>
   traverse node g =
     traverse_inputs (fst (as_applied node g)) (inputs (fst (as_applied node g)))
       ((snd (as_applied node g))\<lparr>all_nodes := all_nodes g @ [fst (as_applied node g)]\<rparr>)"
  by (subst traverse.simps) (simp add: Let_def)

lemma GI_as_applied [simp]: "GI (snd (as_applied n g)) = GI g"
  by (simp add: GI_def)

lemma GI_add_node:
  "GI g \<Longrightarrow> n \<notin> set (all_nodes g) \<Longrightarrow> GI (g\<lparr>all_nodes := all_nodes g @ [n]\<rparr>)"
  by (auto simp: GI_def)

lemma count_list_snoc: "count_list (xs @ [x]) y = count_list xs y + (if x = y then 1 else 0)"
  by (induction xs) auto

lemma GI_add_edge:
  assumes "GI g" "u \<in> set (all_nodes g)" "d \<in> set (all_nodes g)"
  shows "GI (g\<lparr>fwd := (fwd g)(u := fwd g u @ [d]),
               rev_graph := (rev_graph g)(d := rev_graph g d @ [u])\<rparr>)"
proof -
  have a: "\<forall>x y. count_list (fwd g x) y = count_list (rev_graph g y) x"
    using assms(1) by (simp add: GI_def)
  have b: "\<forall>x y. y \<in> set (fwd g x) \<longrightarrow> x \<in> set (all_nodes g) \<and> y \<in> set (all_nodes g)"
    using assms(1) by (simp add: GI_def)
  have c: "distinct (all_nodes g)" using assms(1) by (simp add: GI_def)
  show ?thesis
    unfolding GI_def using a b c assms(2,3) by (auto simp: count_list_snoc)
qed

lemma traverse_GI:
  "GI g \<Longrightarrow>
     GI (traverse node g) \<and> set (all_nodes g) \<subseteq> set (all_nodes (traverse node g))
     \<and> fst (as_applied node g) \<in> set (all_nodes (traverse node g))"
  "GI g \<Longrightarrow> node \<in> set (all_nodes g) \<Longrightarrow>
     GI (traverse_inputs node ins g) \<and> set (all_nodes g) \<subseteq> set (all_nodes (traverse_inputs node ins g))"
proof (induction node g and node ins g rule: traverse_traverse_inputs.induct)
  case (1 node g)
  let ?n = "fst (as_applied node g)" and ?g1 = "snd (as_applied node g)"
  show ?case
  proof (cases "?n \<in> set (all_nodes g)")
    case True
    then show ?thesis using 1(2) by (simp add: traverse_old)
  next
    case False
    let ?g2 = "?g1\<lparr>all_nodes := all_nodes ?g1 @ [?n]\<rparr>"
    have f: "?n \<notin> set (all_nodes ?g1)" using False by simp
    have g: "GI ?g2" using GI_add_node [of ?g1 ?n] 1(2) f by simp
    have m: "?n \<in> set (all_nodes ?g2)" by simp
    have IH: "GI (traverse_inputs ?n (inputs ?n) ?g2)
        \<and> set (all_nodes ?g2) \<subseteq> set (all_nodes (traverse_inputs ?n (inputs ?n) ?g2))"
      using 1(1) [OF refl refl f g m] .
    have e: "traverse node g = traverse_inputs ?n (inputs ?n) ?g2"
      using traverse_new [OF False] by simp
    show ?thesis unfolding e using IH by auto
  qed
next
  case (2 node g)
  then show ?case by simp
next
  case (3 node inp rest g)
  let ?x = "fst (as_applied inp g)" and ?g1 = "snd (as_applied inp g)"
  let ?g2 = "traverse ?x ?g1"
  let ?g3 = "?g2\<lparr>fwd := (fwd ?g2)(?x := fwd ?g2 ?x @ [node]),
                 rev_graph := (rev_graph ?g2)(node := rev_graph ?g2 node @ [?x])\<rparr>"
  have g1: "GI ?g1" using 3(3) by simp
  have IH1: "GI ?g2 \<and> set (all_nodes ?g1) \<subseteq> set (all_nodes ?g2)
      \<and> fst (as_applied ?x ?g1) \<in> set (all_nodes ?g2)"
    using 3(1) [OF refl refl g1] .
  have xin: "?x \<in> set (all_nodes ?g2)" using IH1 by simp
  have nin: "node \<in> set (all_nodes ?g2)" using IH1 3(4) by auto
  have g3: "GI ?g3" using GI_add_edge [of ?g2 ?x node] IH1 xin nin by blast
  have n3: "node \<in> set (all_nodes ?g3)" using nin by simp
  have IH2: "GI (traverse_inputs node rest ?g3)
      \<and> set (all_nodes ?g3) \<subseteq> set (all_nodes (traverse_inputs node rest ?g3))"
    using 3(2) [OF refl refl refl g3 n3] .
  have e: "traverse_inputs node (inp # rest) g = traverse_inputs node rest ?g3"
    by (simp add: Let_def)
  show ?case unfolding e using IH2 IH1 by auto
qed

lemma GI_empty: "GI \<lparr>all_nodes = [], fwd = (\<lambda>n. []), rev_graph = (\<lambda>n. []), fresh = f\<rparr>"
  by (simp add: GI_def)

lemma fold_traverse_GI: "GI g \<Longrightarrow> GI (fold traverse outs g)"
  by (induction outs arbitrary: g) (simp_all add: traverse_GI(1))

lemma build_graph_GI: "GI (build_graph outs f)"
  unfolding build_graph_def by (rule fold_traverse_GI [OF GI_empty])

lemma GI_wf_engine: "GI G \<Longrightarrow> wf_engine (Functional_engine draw G)"
proof -
  assume G: "GI G"
  have a: "\<forall>u d. count_list (fwd G u) d = count_list (rev_graph G d) u"
    using G by (simp add: GI_def)
  have b: "\<forall>u d. d \<in> set (fwd G u) \<longrightarrow> u \<in> set (all_nodes G) \<and> d \<in> set (all_nodes G)"
    using G by (simp add: GI_def)
  have c: "\<forall>n u. u \<in> set (rev_graph G n) \<longrightarrow> u \<in> set (all_nodes G)"
  proof (intro allI impI)
    fix n u assume "u \<in> set (rev_graph G n)"
    then have "count_list (rev_graph G n) u \<noteq> 0" by (simp add: count_list_0_iff)
    then have "count_list (fwd G u) n \<noteq> 0" using a by simp
    then have "n \<in> set (fwd G u)" by (simp add: count_list_0_iff)
    then show "u \<in> set (all_nodes G)" using b by blast
  qed
  show ?thesis
    unfolding wf_engine_def using G a b c by (auto simp: GI_def)
qed


lemma layer_free_as_applied [simp]: "layer_free n \<Longrightarrow> as_applied n g = (n, g)"
  by (cases n) simp_all

lemma layer_free_inputs: "layer_free n \<Longrightarrow> x \<in> set (inputs n) \<Longrightarrow> layer_free x"
  by (cases n) simp_all

lemma weight_input_less: "layer_free n \<Longrightarrow> x \<in> set (inputs n) \<Longrightarrow> weight x < weight n"
proof (cases n)
  case (AppliedTask i t ins)
  assume "x \<in> set (inputs n)"
  then have "x \<in> set ins" using AppliedTask by simp
  then have "weight x \<le> sum_list (map weight ins)" by (simp add: member_le_sum_list)
  then show ?thesis using AppliedTask by simp
next
  case (Layer t)
  assume "layer_free n"
  then show ?thesis using Layer by simp
qed

lemma subnodes_layer_free:
  "layer_free n \<Longrightarrow> subnodes n = insert n (\<Union>x\<in>set (inputs n). subnodes x)"
  by (cases n) simp_all

lemma traverse_reach:
  "layer_free node \<Longrightarrow> CL g S \<Longrightarrow> (\<forall>p\<in>S. weight node < weight p) \<Longrightarrow>
     set (all_nodes (traverse node g)) = set (all_nodes g) \<union> subnodes node
     \<and> CL (traverse node g) S
     \<and> (\<forall>n\<in>set (all_nodes g). rev_graph (traverse node g) n = rev_graph g n)"
  "(\<forall>x\<in>set ins. layer_free x) \<Longrightarrow> node \<in> set (all_nodes g) \<Longrightarrow> node \<in> S \<Longrightarrow> CL g S \<Longrightarrow>
   (\<forall>p\<in>S. \<forall>x\<in>set ins. weight x < weight p) \<Longrightarrow>
     set (all_nodes (traverse_inputs node ins g)) = set (all_nodes g) \<union> (\<Union>x\<in>set ins. subnodes x)
     \<and> CL (traverse_inputs node ins g) S
     \<and> (\<forall>n\<in>set (all_nodes g) - {node}. rev_graph (traverse_inputs node ins g) n = rev_graph g n)
     \<and> rev_graph (traverse_inputs node ins g) node = rev_graph g node @ ins"
proof (induction node g and node ins g arbitrary: S and S rule: traverse_traverse_inputs.induct)
  case (1 node g)
  have ap: "fst (as_applied node g) = node" "snd (as_applied node g) = g"
    using 1(2) by simp_all
  show ?case
  proof (cases "node \<in> set (all_nodes g)")
    case True
    have "node \<notin> S" using 1(4) by auto
    then have "subnodes node \<subseteq> set (all_nodes g)" using 1(3) True by (auto simp: CL_def)
    moreover have "traverse node g = g" using traverse_old [of node g] True ap by simp
    ultimately show ?thesis using 1(3) by auto
  next
    case False
    let ?g2 = "g\<lparr>all_nodes := all_nodes g @ [node]\<rparr>"
    let ?S = "insert node S"
    let ?g' = "traverse_inputs node (inputs node) ?g2"
    have e: "traverse node g = ?g'" using traverse_new [of node g] False ap by simp
    have lf: "\<forall>x\<in>set (inputs node). layer_free x" using 1(2) layer_free_inputs by blast
    have m: "node \<in> set (all_nodes ?g2)" by simp
    have cl: "CL ?g2 ?S" using 1(3) by (auto simp: CL_def)
    have w: "\<forall>p\<in>?S. \<forall>x\<in>set (inputs node). weight x < weight p"
    proof (intro ballI)
      fix p x assume p: "p \<in> ?S" and x: "x \<in> set (inputs node)"
      have xn: "weight x < weight node" using weight_input_less [OF 1(2) x] .
      show "weight x < weight p"
      proof (cases "p = node")
        case True then show ?thesis using xn by simp
      next
        case False
        then have "weight node < weight p" using p 1(4) by auto
        then show ?thesis using xn by simp
      qed
    qed
    have f: "fst (as_applied node g) \<notin> set (all_nodes (snd (as_applied node g)))"
      using False ap by simp
    have IH0: "set (all_nodes (traverse_inputs (fst (as_applied node g)) (inputs (fst (as_applied node g)))
          ((snd (as_applied node g))\<lparr>all_nodes := all_nodes (snd (as_applied node g)) @ [fst (as_applied node g)]\<rparr>)))
        = set (all_nodes ((snd (as_applied node g))\<lparr>all_nodes := all_nodes (snd (as_applied node g)) @ [fst (as_applied node g)]\<rparr>))
          \<union> (\<Union>x\<in>set (inputs (fst (as_applied node g))). subnodes x)
      \<and> CL (traverse_inputs (fst (as_applied node g)) (inputs (fst (as_applied node g)))
          ((snd (as_applied node g))\<lparr>all_nodes := all_nodes (snd (as_applied node g)) @ [fst (as_applied node g)]\<rparr>)) ?S
      \<and> (\<forall>n\<in>set (all_nodes ((snd (as_applied node g))\<lparr>all_nodes := all_nodes (snd (as_applied node g)) @ [fst (as_applied node g)]\<rparr>)) - {fst (as_applied node g)}.
            rev_graph (traverse_inputs (fst (as_applied node g)) (inputs (fst (as_applied node g)))
              ((snd (as_applied node g))\<lparr>all_nodes := all_nodes (snd (as_applied node g)) @ [fst (as_applied node g)]\<rparr>)) n
            = rev_graph ((snd (as_applied node g))\<lparr>all_nodes := all_nodes (snd (as_applied node g)) @ [fst (as_applied node g)]\<rparr>) n)
      \<and> rev_graph (traverse_inputs (fst (as_applied node g)) (inputs (fst (as_applied node g)))
              ((snd (as_applied node g))\<lparr>all_nodes := all_nodes (snd (as_applied node g)) @ [fst (as_applied node g)]\<rparr>)) (fst (as_applied node g))
          = rev_graph ((snd (as_applied node g))\<lparr>all_nodes := all_nodes (snd (as_applied node g)) @ [fst (as_applied node g)]\<rparr>) (fst (as_applied node g))
            @ inputs (fst (as_applied node g))"
      apply (rule 1(1) [OF refl refl f, of ?S])
      using lf m cl w by (simp_all add: ap)
    have IH: "set (all_nodes ?g') = set (all_nodes ?g2) \<union> (\<Union>x\<in>set (inputs node). subnodes x)"
      "CL ?g' ?S"
      "\<forall>n\<in>set (all_nodes ?g2) - {node}. rev_graph ?g' n = rev_graph ?g2 n"
      "rev_graph ?g' node = rev_graph ?g2 node @ inputs node"
      using IH0 by (simp_all add: ap)
    have r0: "rev_graph g node = []" using 1(3) False by (auto simp: CL_def)
    have sn: "subnodes node = insert node (\<Union>x\<in>set (inputs node). subnodes x)"
      by (rule subnodes_layer_free [OF 1(2)])
    have A: "set (all_nodes ?g') = set (all_nodes g) \<union> subnodes node"
      using IH(1) sn by auto
    have rn: "rev_graph ?g' node = inputs node" using IH(4) r0 by simp
    have B: "CL ?g' S"
      unfolding CL_def
    proof (intro conjI ballI allI impI)
      fix n assume n: "n \<in> set (all_nodes ?g') - S"
      show "subnodes n \<subseteq> set (all_nodes ?g')"
      proof (cases "n = node")
        case True then show ?thesis using A by auto
      next
        case False
        then have "n \<in> set (all_nodes ?g') - ?S" using n by auto
        then show ?thesis using IH(2) by (auto simp: CL_def)
      qed
      show "rev_graph ?g' n = inputs n"
      proof (cases "n = node")
        case True then show ?thesis using rn by simp
      next
        case False
        then have "n \<in> set (all_nodes ?g') - ?S" using n by auto
        then show ?thesis using IH(2) by (auto simp: CL_def)
      qed
    next
      fix n assume "n \<notin> set (all_nodes ?g')"
      then show "rev_graph ?g' n = []" using IH(2) by (auto simp: CL_def)
    qed
    have C: "\<forall>n\<in>set (all_nodes g). rev_graph ?g' n = rev_graph g n"
      using IH(3) False by auto
    show ?thesis unfolding e using A B C by blast
  qed
next
  case (2 node g)
  then show ?case by simp
next
  case (3 node inp rest g)
  have li: "layer_free inp" using 3(3) by simp
  have ap: "fst (as_applied inp g) = inp" "snd (as_applied inp g) = g"
    using li by simp_all
  let ?g2 = "traverse inp g"
  let ?g3 = "?g2\<lparr>fwd := (fwd ?g2)(inp := fwd ?g2 inp @ [node]),
                 rev_graph := (rev_graph ?g2)(node := rev_graph ?g2 node @ [inp])\<rparr>"
  let ?g' = "traverse_inputs node rest ?g3"
  have e: "traverse_inputs node (inp # rest) g = ?g'"
    by (simp add: Let_def ap)
  have wi: "\<forall>p\<in>S. weight inp < weight p" using 3(7) by simp
  have IH1: "set (all_nodes ?g2) = set (all_nodes g) \<union> subnodes inp"
    "CL ?g2 S" "\<forall>n\<in>set (all_nodes g). rev_graph ?g2 n = rev_graph g n"
    using 3(1) [OF ap(1) [symmetric] ap(2) [symmetric], of S] li 3(6) wi
    by (simp_all add: ap)
  have n2: "node \<in> set (all_nodes ?g2)" using IH1(1) 3(4) by auto
  have cl3: "CL ?g3 S" using IH1(2) 3(5) n2 by (auto simp: CL_def)
  have n3: "node \<in> set (all_nodes ?g3)" using n2 by simp
  have lr: "\<forall>x\<in>set rest. layer_free x" using 3(3) by simp
  have wr: "\<forall>p\<in>S. \<forall>x\<in>set rest. weight x < weight p" using 3(7) by simp
  have IH2: "set (all_nodes ?g') = set (all_nodes ?g3) \<union> (\<Union>x\<in>set rest. subnodes x)"
    "CL ?g' S"
    "\<forall>n\<in>set (all_nodes ?g3) - {node}. rev_graph ?g' n = rev_graph ?g3 n"
    "rev_graph ?g' node = rev_graph ?g3 node @ rest"
    using 3(2) [OF ap(1) [symmetric] ap(2) [symmetric] refl, of S] lr n3 3(5) cl3 wr
    by (simp_all add: ap)
  have A: "set (all_nodes ?g') = set (all_nodes g) \<union> (\<Union>x\<in>set (inp # rest). subnodes x)"
    using IH2(1) IH1(1) by auto
  have C: "\<forall>n\<in>set (all_nodes g) - {node}. rev_graph ?g' n = rev_graph g n"
  proof
    fix n assume n: "n \<in> set (all_nodes g) - {node}"
    then have "n \<in> set (all_nodes ?g3) - {node}" using IH1(1) by auto
    then have "rev_graph ?g' n = rev_graph ?g3 n" using IH2(3) by blast
    also have "\<dots> = rev_graph ?g2 n" using n by simp
    also have "\<dots> = rev_graph g n" using IH1(3) n by auto
    finally show "rev_graph ?g' n = rev_graph g n" .
  qed
  have D: "rev_graph ?g' node = rev_graph g node @ inp # rest"
    using IH2(4) IH1(3) 3(4) by simp
  show ?case unfolding e using A IH2(2) C D by blast
qed

section \<open>Correctness of the cycle check\<close>















lemma dfs_missing: "fmlookup st v = None \<Longrightarrow> dfs succ v st = (Inl KeyError, st)"
  by (subst dfs.simps) simp










section \<open>Ordering and reachability\<close>

lemma fold_traverse_reach:
  "(\<forall>x\<in>set outs. layer_free x) \<Longrightarrow> CL g {} \<Longrightarrow>
   set (all_nodes (fold traverse outs g)) = set (all_nodes g) \<union> (\<Union>x\<in>set outs. subnodes x)
   \<and> CL (fold traverse outs g) {}"
proof (induction outs arbitrary: g)
  case Nil
  then show ?case by simp
next
  case (Cons x xs)
  have lx: "layer_free x" using Cons.prems(1) by simp
  have T: "set (all_nodes (traverse x g)) = set (all_nodes g) \<union> subnodes x \<and> CL (traverse x g) {}"
    using traverse_reach(1) [OF lx Cons.prems(2)] by simp
  have lxs: "\<forall>y\<in>set xs. layer_free y" using Cons.prems(1) by simp
  have "set (all_nodes (fold traverse xs (traverse x g)))
      = set (all_nodes (traverse x g)) \<union> (\<Union>y\<in>set xs. subnodes y)
      \<and> CL (fold traverse xs (traverse x g)) {}"
    using Cons.IH [OF lxs] T by blast
  then show ?case using T by auto
qed

lemma build_graph_nodes:
  assumes "\<forall>x\<in>set outs. layer_free x"
  shows "set (all_nodes (build_graph outs f)) = (\<Union>x\<in>set outs. subnodes x)"
    and "CL (build_graph outs f) {}"
proof -
  have "CL \<lparr>all_nodes = [], fwd = (\<lambda>n. []), rev_graph = (\<lambda>n. []), fresh = f\<rparr> {}"
    by (simp add: CL_def)
  then have "set (all_nodes (build_graph outs f))
      = set (all_nodes \<lparr>all_nodes = [], fwd = (\<lambda>n. []), rev_graph = (\<lambda>n. []), fresh = f\<rparr>)
        \<union> (\<Union>x\<in>set outs. subnodes x)
      \<and> CL (build_graph outs f) {}"
    unfolding build_graph_def using fold_traverse_reach [OF assms] by blast
  then show "set (all_nodes (build_graph outs f)) = (\<Union>x\<in>set outs. subnodes x)"
    and "CL (build_graph outs f) {}" by simp_all
qed

lemma build_graph_rev:
  assumes "\<forall>x\<in>set outs. layer_free x" and "n \<in> set (all_nodes (build_graph outs f))"
  shows "rev_graph (build_graph outs f) n = inputs n"
  using build_graph_nodes(2) [OF assms(1), of f] assms(2) by (simp add: CL_def)







text \<open>
  Claim C3. In \<open>DAG.run\<close> over a well-formed registry and in \<open>FunctionalFlow.run\<close>
  over a flow built from applied tasks, in every state that any order of events can
  reach, a node that has been submitted has \<open>indegree\<close> 0 and all its upstream nodes
  (its \<open>upstream\<close> list, its \<open>inputs\<close>) are among the nodes whose completion the loop
  has handled, with a result or as skipped; only submitted nodes are ever run.
\<close>

theorem upstream_resolved_first:
  "(wf_registry heap tasks \<longrightarrow>
      (\<forall>n\<in>set (submitted (snd (DAG_pool draw heap tasks sched r))).
         indegree (snd (DAG_pool draw heap tasks sched r)) n = Some 0
         \<and> set (upstream (heap n)) \<subseteq> set (finished (snd (DAG_pool draw heap tasks sched r))))
      \<and> set (started (snd (DAG_pool draw heap tasks sched r)))
           \<subseteq> set (submitted (snd (DAG_pool draw heap tasks sched r))))
   \<and> ((\<forall>x\<in>set outs. layer_free x) \<longrightarrow>
      (\<forall>n\<in>set (submitted (snd (Functional_pool draw (build_graph outs f0) sched r))).
         indegree (snd (Functional_pool draw (build_graph outs f0) sched r)) n = Some 0
         \<and> set (inputs n)
              \<subseteq> set (finished (snd (Functional_pool draw (build_graph outs f0) sched r))))
      \<and> set (started (snd (Functional_pool draw (build_graph outs f0) sched r)))
           \<subseteq> set (submitted (snd (Functional_pool draw (build_graph outs f0) sched r))))"
proof (intro conjI impI)
  assume a: "wf_registry heap tasks"
  let ?E = "DAG_engine draw heap tasks"
  have wf: "wf_engine ?E" using a by (rule wf_DAG_engine)
  have S: "Safe ?E (snd (DAG_pool draw heap tasks sched r))"
    unfolding DAG_pool_def using run_loop_Inv [OF wf Inv_init [OF wf]] by blast
  show "\<forall>n\<in>set (submitted (snd (DAG_pool draw heap tasks sched r))).
         indegree (snd (DAG_pool draw heap tasks sched r)) n = Some 0
         \<and> set (upstream (heap n)) \<subseteq> set (finished (snd (DAG_pool draw heap tasks sched r)))"
    using S by (simp add: Safe_def)
  show "set (started (snd (DAG_pool draw heap tasks sched r)))
           \<subseteq> set (submitted (snd (DAG_pool draw heap tasks sched r)))"
    using S by (simp add: Safe_def)
next
  assume lf: "\<forall>x\<in>set outs. layer_free x"
  let ?G = "build_graph outs f0"
  let ?E = "Functional_engine draw ?G"
  let ?s = "snd (Functional_pool draw ?G sched r)"
  have wf: "wf_engine ?E" by (rule GI_wf_engine [OF build_graph_GI])
  have S: "Safe ?E ?s"
    unfolding Functional_pool_def using run_loop_Inv [OF wf Inv_init [OF wf]] by blast
  show "\<forall>n\<in>set (submitted ?s). indegree ?s n = Some 0 \<and> set (inputs n) \<subseteq> set (finished ?s)"
  proof
    fix n assume n: "n \<in> set (submitted ?s)"
    then have "n \<in> set (all_nodes ?G)" using S by (auto simp: Safe_def)
    then have e: "rev_graph ?G n = inputs n" by (rule build_graph_rev [OF lf])
    have "set (rev_graph ?G n) \<subseteq> set (finished ?s)" using S n by (simp add: Safe_def)
    moreover have "indegree ?s n = Some 0" using S n by (simp add: Safe_def)
    ultimately show "indegree ?s n = Some 0 \<and> set (inputs n) \<subseteq> set (finished ?s)"
      unfolding e by simp
  qed
  show "set (started ?s) \<subseteq> set (submitted ?s)" using S by (simp add: Safe_def)
qed


section \<open>Failure of a task\<close>




lemma Inv_ready:
  assumes wf: "wf_engine E" and I: "Inv E s" and d: "d \<in> set (nodes E)"
    and u: "set (ups E d) \<subseteq> set (finished s)"
  shows "d \<in> set (submitted s)"
proof -
  have F: "set (finished s) \<subseteq> set (nodes E)" by (rule Inv_finished_nodes [OF I])
  have zero: "\<forall>x\<in>set (nodes E) - set (finished s). count_list (downs E x) d = 0"
  proof
    fix x assume x: "x \<in> set (nodes E) - set (finished s)"
    then have "x \<notin> set (ups E d)" using u by auto
    then have "count_list (ups E d) x = 0" by (simp add: count_list_0_iff)
    then show "count_list (downs E x) d = 0" using wf x d by (simp add: wf_engine_def)
  qed
  have "(\<Sum>x\<in>set (finished s). count_list (downs E x) d)
      = (\<Sum>x\<in>set (nodes E). count_list (downs E x) d)"
    using F zero by (intro sum.mono_neutral_left) auto
  also have "\<dots> = length (ups E d)" by (rule wf_sum_eq [OF wf d])
  finally have "int (\<Sum>x\<in>set (finished s). count_list (downs E x) d) = int (length (ups E d))"
    by (simp only:)
  moreover have "indegree s d = Some (int (length (ups E d))
      - int (\<Sum>x\<in>set (finished s). count_list (downs E x) d))"
    using I d by (auto simp: Inv_def)
  ultimately have "indegree s d = Some 0" by (simp only: diff_self)
  then show ?thesis using I d by (auto simp: Inv_def)
qed

lemma unlock_finished: "finished (after (unlock E ds s)) = finished s"
  by (induction ds arbitrary: s) (auto simp: after_def Let_def split: option.splits)

lemma complete_finished:
  "finished (after (complete E i n (Inr v) s)) = finished s @ [n]"
  by (simp add: complete_def Let_def unlock_finished)







section \<open>Skipped tasks\<close>

lemma Provenance_init: "Provenance E P (init_state E r)"
  by (auto simp: Provenance_def init_state_fields)

lemma run_loop_Provenance:
  assumes wf: "wf_engine E"
    and W: "\<And>n res res' rt. n \<in> set (nodes E) \<Longrightarrow> P n (fst (worker E n (payload E res n) res' rt))"
  shows "Inv E s \<Longrightarrow> Provenance E P s \<Longrightarrow>
    (\<forall>k v. results (snd (run_loop E sched s)) k = Some v \<longrightarrow>
       (\<exists>n\<in>set (nodes E). key E n = k \<and> keep E v \<and> P n (Inr v)))"
proof (induction sched arbitrary: s)
  case Nil
  then show ?case by (simp add: Provenance_def)
next
  case (Cons k ks)
  show ?case
  proof (cases "futures s = []")
    case True
    then show ?thesis using Cons.prems by (simp add: Provenance_def)
  next
    case False
    let ?i = "k mod length (futures s)"
    have i: "?i < length (futures s)" using False by simp
    from wf Cons.prems(1) False show ?thesis
    proof (cases rule: step_cases [where k = k])
      case (Run n a)
      have fn: "fst (futures s ! ?i) = n" using Run(1) by simp
      have nn: "n \<in> set (nodes E)" using Inv_future_node(2) [OF Cons.prems(1) i fn] .
      have "(n, Queued a) \<in> set (futures s)" using Run(1) i by (metis nth_mem)
      then obtain res where a: "a = payload E res n"
        using Cons.prems(2) by (auto simp: Provenance_def)
      have p: "P n (fst (worker E n a (results s) (rt s)))" unfolding a by (rule W [OF nn])
      have "Provenance E P (run_future E ?i n a s)"
        using Cons.prems(2) p unfolding Provenance_def run_future_fields
        by (auto dest!: set_update_subset_insert [THEN subsetD])
      then show ?thesis using Cons.IH [OF Run(3)] Run(2) False by simp
    next
      case (Fail n e)
      let ?s0 = "s\<lparr>futures := take ?i (futures s) @ drop (Suc ?i) (futures s)\<rparr>"
      have "Safe E ?s0" using Safe_pop [OF Inv_Safe [OF wf Cons.prems(1)]] .
      then have "results (shutdown E ?s0) = results s" using shutdown_Safe by fastforce
      then show ?thesis using Fail(2) False Cons.prems(2) by (simp add: Provenance_def)
    next
      case (Ok n v s' new)
      have fn: "fst (futures s ! ?i) = n" using Ok(1) by simp
      have nn: "n \<in> set (nodes E)" using Inv_future_node(2) [OF Cons.prems(1) i fn] .
      have "(n, Done (Inr v)) \<in> set (futures s)" using Ok(1) i by (metis nth_mem)
      then have p: "P n (Inr v)" using Cons.prems(2) by (auto simp: Provenance_def)
      have "Provenance E P s'"
        unfolding Provenance_def Ok(4) Ok(9)
        using Cons.prems(2) p nn by (auto simp: Provenance_def dest: in_set_takeD in_set_dropD)
      then show ?thesis using Cons.IH [OF Ok(3)] Ok(2) False by simp
    qed
  qed
qed

lemma skipped_not_stored:
  assumes wf: "wf_registry heap tasks" and inj: "inj_on (\<lambda>t. name (heap t)) (set tasks)"
    and f: "f \<in> set tasks"
    and sk: "\<forall>res. \<not> will_run (heap f) (DAG_args heap res f)"
  shows "results (snd (DAG_pool draw heap tasks sched r)) (name (heap f)) = None"
proof (rule ccontr)
  let ?E = "DAG_engine draw heap tasks"
  define P where "P = (\<lambda>n (r :: exn + pyval). n = f \<longrightarrow> r = Inr PyNone)"
  assume "results (snd (DAG_pool draw heap tasks sched r)) (name (heap f)) \<noteq> None"
  then obtain v where v: "results (snd (run_loop ?E sched (init_state ?E r))) (name (heap f)) = Some v"
    by (auto simp: DAG_pool_def)
  have wfE: "wf_engine ?E" using wf by (rule wf_DAG_engine)
  have W: "\<And>n res res' rt. n \<in> set (nodes ?E) \<Longrightarrow> P n (fst (worker ?E n (payload ?E res n) res' rt))"
    using sk by (simp add: P_def Task_call_skip)
  have "\<exists>n\<in>set (nodes ?E). key ?E n = name (heap f) \<and> keep ?E v \<and> P n (Inr v)"
    using run_loop_Provenance [where P = P and E = ?E and sched = sched,
        OF wfE W Inv_init [OF wfE] Provenance_init] v by blast
  then obtain n where n: "n \<in> set tasks" "name (heap n) = name (heap f)" "v \<noteq> PyNone" "P n (Inr v)"
    by auto
  have "n = f" using inj n(1,2) f by (auto dest: inj_onD)
  then show False using n(3,4) by (simp add: P_def)
qed

lemma skipped_absent:
  assumes wf: "wf_registry heap tasks" and inj: "inj_on (\<lambda>t. name (heap t)) (set tasks)"
    and run: "fst (DAG_pool draw heap tasks sched r) = Running"
    and i: "i < length (futures (snd (DAG_pool draw heap tasks sched r)))"
    and n: "fst (futures (snd (DAG_pool draw heap tasks sched r)) ! i) = n"
  shows "results (snd (DAG_pool draw heap tasks sched r)) (name (heap n)) = None"
proof (rule ccontr)
  let ?E = "DAG_engine draw heap tasks"
  let ?S = "snd (DAG_pool draw heap tasks sched r)"
  have wfE: "wf_engine ?E" using wf by (rule wf_DAG_engine)
  have I: "Inv ?E ?S"
    using run_loop_Inv [OF wfE Inv_init [OF wfE], of sched r] run
    unfolding DAG_pool_def by blast
  assume "results ?S (name (heap n)) \<noteq> None"
  then have "name (heap n) \<in> dom (results ?S)" by auto
  then have "name (heap n) \<in> key ?E ` set (finished ?S)" using I by (auto simp: Inv_def)
  then obtain m where m: "m \<in> set (finished ?S)" "name (heap m) = name (heap n)" by auto
  have "m \<in> set tasks" using Inv_finished_nodes [OF I] m(1) by auto
  moreover have "n \<in> set tasks" using Inv_future_node(2) [OF I i n] by simp
  ultimately have "m = n" using inj m(2) by (auto dest: inj_onD)
  then show False using Inv_future_node(3) [OF I i n] m(1) by simp
qed

text \<open>
  Claim C5, as amended. Let \<open>t\<close> be a task with a \<open>when\<close> predicate \<open>cond\<close>. A call
  without positional arguments, or with a first positional argument on which \<open>cond\<close>
  is false, returns \<open>None\<close>: the body is not invoked, the world is unchanged, nothing
  is drawn or slept, and the only event is the skip; a call whose first argument
  satisfies \<open>cond\<close> runs the task as if it had no predicate. In \<open>DAG.run\<close> and
  \<open>Flow.run\<close> the completion of a skipped task leaves the Result Store as it was and
  counts the task as finished, and in a run of \<open>DAG.run\<close> over tasks with distinct
  names the store has no entry under the name of a skipped task when its completion
  is handled, neither before nor after, and it never holds an entry under the name of
  a task that is skipped for every argument list it can be given. In
  \<open>FunctionalFlow.run\<close> the completion stores \<open>None\<close> under the name of the node and
  counts the node as finished. In a run of \<open>DAG.run\<close> that has not raised,
  every task whose upstream tasks are all finished has been submitted, and so it is
  in \<open>Flow.run\<close> and \<open>FunctionalFlow.run\<close>. In \<open>DAG.run\<close> the argument built for an
  upstream name that is not in the store is \<open>None\<close>; \<open>Flow.run\<close> omits a parameter
  whose name is not in the store, and \<open>FunctionalFlow.run\<close> passes the stored \<open>None\<close>.
\<close>

theorem skip_contract:
  assumes c: "when_pred t = Some cond"
  shows "will_run t args = (args \<noteq> [] \<and> cond (hd args))
   \<and> (args = [] \<or> \<not> cond (hd args) \<longrightarrow>
        Task_call draw t args kw s =
          (Inr PyNone, emit (LogTaskSkip (name t)
             (if args = [] then ''no upstream data'' else ''condition not met'')) s))
   \<and> (args \<noteq> [] \<and> cond (hd args) \<longrightarrow>
        Task_call draw t args kw s =
          retry_loop draw t args kw 0 (delay t) (emit (LogTaskStart (name t)) s))
   \<and> results (after (complete (DAG_engine draw heap tasks) i n (Inr PyNone) st)) = results st
   \<and> finished (after (complete (DAG_engine draw heap tasks) i n (Inr PyNone) st)) = finished st @ [n]
   \<and> results (after (complete (Flow_engine draw heap fl ts) i n (Inr PyNone) st')) = results st'
   \<and> finished (after (complete (Flow_engine draw heap fl ts) i n (Inr PyNone) st')) = finished st' @ [n]
   \<and> results (after (complete (Functional_engine draw G) j node (Inr PyNone) st''))
        = (results st'')(node_name node \<mapsto> PyNone)
   \<and> (wf_registry heap tasks \<and> inj_on (\<lambda>x. name (heap x)) (set tasks) \<and> f \<in> set tasks
        \<and> heap f = t \<and> (\<forall>res. DAG_args heap res f = [] \<or> \<not> cond (hd (DAG_args heap res f))) \<longrightarrow>
        results (snd (DAG_pool draw heap tasks sched r)) (name t) = None)
   \<and> (wf_registry heap tasks \<and> inj_on (\<lambda>x. name (heap x)) (set tasks)
        \<and> fst (DAG_pool draw heap tasks ks r) = Running
        \<and> pos < length (futures (snd (DAG_pool draw heap tasks ks r)))
        \<and> futures (snd (DAG_pool draw heap tasks ks r)) ! pos = (sk, Done (Inr PyNone)) \<longrightarrow>
        results (snd (DAG_pool draw heap tasks ks r)) (name (heap sk)) = None
        \<and> results (after (complete (DAG_engine draw heap tasks) pos sk (Inr PyNone)
              (snd (DAG_pool draw heap tasks ks r)))) (name (heap sk)) = None)
   \<and> (wf_registry heap tasks \<and> d \<in> set tasks
        \<and> (fst (DAG_pool draw heap tasks sched r) = Running
             \<or> fst (DAG_pool draw heap tasks sched r) = Returned)
        \<and> set (upstream (heap d)) \<subseteq> set (finished (snd (DAG_pool draw heap tasks sched r))) \<longrightarrow>
        d \<in> set (submitted (snd (DAG_pool draw heap tasks sched r))))
   \<and> (m < length (upstream (heap d)) \<and> res (name (heap (upstream (heap d) ! m))) = None \<longrightarrow>
        DAG_args heap res d ! m = PyNone)
   \<and> (p \<notin> dom res \<longrightarrow> p \<notin> fst ` set (filter_kwargs ps res))
   \<and> (p \<in> set ps \<longrightarrow> map_of (filter_kwargs ps (res(p \<mapsto> PyNone))) p = Some PyNone)
   \<and> finished (after (complete (Functional_engine draw G) j node (Inr PyNone) st''))
        = finished st'' @ [node]
   \<and> (wf_flow fl ts \<and> d \<in> set ts
        \<and> (fst (Flow_pool draw heap fl ts sched r) = Running
             \<or> fst (Flow_pool draw heap fl ts sched r) = Returned)
        \<and> set (reverse_graph fl d) \<subseteq> set (finished (snd (Flow_pool draw heap fl ts sched r))) \<longrightarrow>
        d \<in> set (submitted (snd (Flow_pool draw heap fl ts sched r))))
   \<and> (node \<in> set (all_nodes (build_graph outs f0))
        \<and> (fst (Functional_pool draw (build_graph outs f0) sched r) = Running
             \<or> fst (Functional_pool draw (build_graph outs f0) sched r) = Returned)
        \<and> set (rev_graph (build_graph outs f0) node)
             \<subseteq> set (finished (snd (Functional_pool draw (build_graph outs f0) sched r))) \<longrightarrow>
        node \<in> set (submitted (snd (Functional_pool draw (build_graph outs f0) sched r))))"
proof -
  have gf: "d \<in> set (submitted (snd (Flow_pool draw heap fl ts sched r)))"
    if wf: "wf_flow fl ts" and d: "d \<in> set ts"
      and st: "fst (Flow_pool draw heap fl ts sched r) = Running
         \<or> fst (Flow_pool draw heap fl ts sched r) = Returned"
      and u: "set (reverse_graph fl d) \<subseteq> set (finished (snd (Flow_pool draw heap fl ts sched r)))"
  proof -
    let ?E = "Flow_engine draw heap fl ts"
    have wfE: "wf_engine ?E" using wf by (rule wf_Flow_engine)
    have "Inv ?E (snd (Flow_pool draw heap fl ts sched r))"
      using run_loop_Inv [OF wfE Inv_init [OF wfE], of sched r] st
      unfolding Flow_pool_def by blast
    then show ?thesis using Inv_ready [OF wfE _ _ _] d u by simp
  qed
  have gn: "node \<in> set (submitted (snd (Functional_pool draw (build_graph outs f0) sched r)))"
    if d: "node \<in> set (all_nodes (build_graph outs f0))"
      and st: "fst (Functional_pool draw (build_graph outs f0) sched r) = Running
         \<or> fst (Functional_pool draw (build_graph outs f0) sched r) = Returned"
      and u: "set (rev_graph (build_graph outs f0) node)
         \<subseteq> set (finished (snd (Functional_pool draw (build_graph outs f0) sched r)))"
  proof -
    let ?E = "Functional_engine draw (build_graph outs f0)"
    have wfE: "wf_engine ?E" by (rule GI_wf_engine [OF build_graph_GI])
    have "Inv ?E (snd (Functional_pool draw (build_graph outs f0) sched r))"
      using run_loop_Inv [OF wfE Inv_init [OF wfE], of sched r] st
      unfolding Functional_pool_def by blast
    then show ?thesis using Inv_ready [OF wfE _ _ _] d u by simp
  qed
  have w: "will_run t args = (args \<noteq> [] \<and> cond (hd args))" for args
    by (cases args) (simp_all add: will_run_def c)
  have a: "Task_call draw t args kw s =
          (Inr PyNone, emit (LogTaskSkip (name t)
             (if args = [] then ''no upstream data'' else ''condition not met'')) s)"
    if "args = [] \<or> \<not> cond (hd args)"
    using that w [of args] Task_call_skip [of t args draw kw s] by blast
  have b: "Task_call draw t args kw s =
          retry_loop draw t args kw 0 (delay t) (emit (LogTaskStart (name t)) s)"
    if "args \<noteq> [] \<and> cond (hd args)"
    using that w [of args] Task_call_run [of t args draw kw s] by blast
  have e: "results (snd (DAG_pool draw heap tasks sched r)) (name t) = None"
    if "wf_registry heap tasks" "inj_on (\<lambda>x. name (heap x)) (set tasks)" "f \<in> set tasks"
      "heap f = t" "\<forall>res. DAG_args heap res f = [] \<or> \<not> cond (hd (DAG_args heap res f))"
  proof -
    have n: "\<forall>res. \<not> will_run (heap f) (DAG_args heap res f)"
      using that(4,5) w by simp
    show ?thesis using skipped_not_stored [OF that(1-3) n, of draw sched r] that(4) by simp
  qed
  have q: "results (snd (DAG_pool draw heap tasks ks r)) (name (heap sk)) = None
        \<and> results (after (complete (DAG_engine draw heap tasks) pos sk (Inr PyNone)
              (snd (DAG_pool draw heap tasks ks r)))) (name (heap sk)) = None"
    if "wf_registry heap tasks" "inj_on (\<lambda>x. name (heap x)) (set tasks)"
      "fst (DAG_pool draw heap tasks ks r) = Running"
      "pos < length (futures (snd (DAG_pool draw heap tasks ks r)))"
      "futures (snd (DAG_pool draw heap tasks ks r)) ! pos = (sk, Done (Inr PyNone))"
  proof -
    have "fst (futures (snd (DAG_pool draw heap tasks ks r)) ! pos) = sk"
      using that(5) by simp
    then show ?thesis
      using skipped_absent [OF that(1-4)] by (simp add: complete_results)
  qed
  have g: "d \<in> set (submitted (snd (DAG_pool draw heap tasks sched r)))"
    if wf: "wf_registry heap tasks" and d: "d \<in> set tasks"
      and st: "fst (DAG_pool draw heap tasks sched r) = Running
             \<or> fst (DAG_pool draw heap tasks sched r) = Returned"
      and u: "set (upstream (heap d)) \<subseteq> set (finished (snd (DAG_pool draw heap tasks sched r)))"
  proof -
    let ?E = "DAG_engine draw heap tasks"
    have wfE: "wf_engine ?E" using wf by (rule wf_DAG_engine)
    have "Inv ?E (snd (DAG_pool draw heap tasks sched r))"
      using run_loop_Inv [OF wfE Inv_init [OF wfE], of sched r] st
      unfolding DAG_pool_def by blast
    then show ?thesis using Inv_ready [OF wfE _ _ _] d u by simp
  qed
  have h: "DAG_args heap res d ! m = PyNone"
    if "m < length (upstream (heap d))" "res (name (heap (upstream (heap d) ! m))) = None"
    using that by (simp add: DAG_args_def)
  have k: "p \<notin> fst ` set (filter_kwargs ps res)" if "p \<notin> dom res"
  proof -
    have "fst ` set (filter_kwargs ps res) = set (filter (\<lambda>p. p \<in> dom res) ps)"
      using filter_kwargs_keys [of ps res] by (metis set_map)
    then show ?thesis using that by simp
  qed
  have l: "map_of (filter_kwargs ps (res(p \<mapsto> PyNone))) p = Some PyNone" if "p \<in> set ps"
    using that by (simp add: filter_kwargs_map_of)
  show ?thesis
    using w [of args] a b e q g h k l gf gn
    by (simp add: complete_results complete_finished)
qed

section \<open>Examples and witnesses\<close>



definition returns_first :: "unit pyfun" where
  "returns_first args kw w =
     (case args of
        v # _ \<Rightarrow> Inr v
      | [] \<Rightarrow> (case kw of (p, v) # _ \<Rightarrow> Inr v | [] \<Rightarrow> Inl (UserError ''TypeError'')), w)"

definition chain3 :: "tid \<Rightarrow> unit Task" where
  "chain3 t =
     (if t = 2 then
        \<lparr>func = (\<lambda>args kw w. (Inr (PyInt 1), w)), name = ''a'', params = [],
         upstream = [], downstream = [3], retries = 0, delay = 1, backoff = 2, when_pred = None\<rparr>
      else if t = 3 then
        \<lparr>func = (\<lambda>args kw w. (Inr (PyInt 2), w)), name = ''b'', params = [''x''],
         upstream = [2], downstream = [4], retries = 0, delay = 1, backoff = 2, when_pred = None\<rparr>
      else
        \<lparr>func = returns_first, name = ''c'', params = [''a''],
         upstream = [3], downstream = [], retries = 0, delay = 1, backoff = 2, when_pred = None\<rparr>)"

definition chain_flow :: Flow where
  "chain_flow = \<lparr>flow_tasks = [2, 3, 4],
                 graph = (\<lambda>t. downstream (chain3 t)),
                 reverse_graph = (\<lambda>t. upstream (chain3 t))\<rparr>"

definition r0 :: "unit runtime" where
  "r0 = \<lparr>world = (), trace = [], draws = 0\<rparr>"

definition stubborn :: "unit Task" where
  "stubborn = \<lparr>func = (\<lambda>args kw w. (Inl (UserError ''boom''), w)), name = ''s'',
                params = [''a''], upstream = [], downstream = [],
                retries = 3, delay = 1, backoff = 2, when_pred = Some (\<lambda>v. False)\<rparr>"

definition picky :: "unit Task" where
  "picky = \<lparr>func = (\<lambda>args kw w. (Inr (PyStr ''big''), w)), name = ''picky'',
             params = [''value''], upstream = [], downstream = [],
             retries = 0, delay = 1, backoff = 2,
             when_pred = Some (\<lambda>v. case v of PyInt x \<Rightarrow> 50 < x | _ \<Rightarrow> False)\<rparr>"

definition quiet :: "unit Task" where
  "quiet = \<lparr>func = (\<lambda>args kw w. (Inr PyNone, w)), name = ''quiet'',
             params = [], upstream = [], downstream = [],
             retries = 0, delay = 1, backoff = 2, when_pred = None\<rparr>"


definition loop2 :: "tid \<Rightarrow> unit Task" where
  "loop2 t =
     (if t = 2 then
        \<lparr>func = (\<lambda>args kw w. (Inr (PyInt 1), w)), name = ''ping'', params = [''x''],
         upstream = [3], downstream = [3], retries = 0, delay = 1, backoff = 2, when_pred = None\<rparr>
      else
        \<lparr>func = (\<lambda>args kw w. (Inr (PyInt 2), w)), name = ''pong'', params = [''x''],
         upstream = [2], downstream = [2], retries = 0, delay = 1, backoff = 2, when_pred = None\<rparr>)"


definition nA :: "unit fnode" where
  "nA = AppliedTask 10 (chain3 2) []"

definition nC :: "unit fnode" where
  "nC = AppliedTask 11 (chain3 4) [nA]"

definition stray :: "unit fnode" where
  "stray = AppliedTask 12 (chain3 3) [nA]"


definition nP :: "unit fnode" where
  "nP = AppliedTask 20 picky []"

definition gated :: "tid \<Rightarrow> unit Task" where
  "gated t =
     (if t = 2 then
        \<lparr>func = (\<lambda>args kw w. (Inr (PyInt 30), w)), name = ''small'', params = [],
         upstream = [], downstream = [3], retries = 0, delay = 1, backoff = 2, when_pred = None\<rparr>
      else if t = 3 then
        \<lparr>func = (\<lambda>args kw w. (Inr (PyStr ''big''), w)), name = ''picky'', params = [''value''],
         upstream = [2], downstream = [4], retries = 3, delay = 1, backoff = 2,
         when_pred = Some (\<lambda>v. case v of PyInt x \<Rightarrow> 50 < x | _ \<Rightarrow> False)\<rparr>
      else if t = 4 then
        \<lparr>func = (\<lambda>args kw w. (Inr (PyList args), w)), name = ''report'', params = [''picky''],
         upstream = [3], downstream = [], retries = 0, delay = 1, backoff = 2, when_pred = None\<rparr>
      else
        \<lparr>func = (\<lambda>args kw w. (Inr (PyStr ''alone''), w)), name = ''lonely'', params = [''value''],
         upstream = [], downstream = [], retries = 3, delay = 1, backoff = 2,
         when_pred = Some (\<lambda>v. case v of PyInt x \<Rightarrow> 50 < x | _ \<Rightarrow> False)\<rparr>)"



lemma chain3_simps:
  "chain3 2 = \<lparr>func = (\<lambda>args kw w. (Inr (PyInt 1), w)), name = ''a'', params = [],
         upstream = [], downstream = [3], retries = 0, delay = 1, backoff = 2, when_pred = None\<rparr>"
  "chain3 3 = \<lparr>func = (\<lambda>args kw w. (Inr (PyInt 2), w)), name = ''b'', params = [''x''],
         upstream = [2], downstream = [4], retries = 0, delay = 1, backoff = 2, when_pred = None\<rparr>"
  "chain3 4 = \<lparr>func = returns_first, name = ''c'', params = [''a''],
         upstream = [3], downstream = [], retries = 0, delay = 1, backoff = 2, when_pred = None\<rparr>"
  by (simp_all add: chain3_def)

lemma chain3_acyclic: "has_cycle (\<lambda>t. downstream (chain3 t)) [2, 3, 4] = Inr False"
  by (simp add: has_cycle_def chain3_simps dfs.simps dfs_each.simps(2))

lemmas eval_defs = DAG_pool_def Flow_pool_def Functional_pool_def init_state_def
  DAG_engine_def Flow_engine_def Functional_engine_def step_def
  run_future_def complete_def submit_def DAG_adj_def DAG_args_def Task_call_def
  Flow_execute_task_def execute_node_def raw_call_def
  retry_loop.simps emit_def r0_def Let_def returns_first_def


lemma flow_chain_run:
  "Flow_run (\<lambda>k. 0) chain3 chain_flow [2, 3, 4] [0, 0, 0, 0, 0, 0] r0 =
     (Return [''a'' \<mapsto> PyInt 1, ''b'' \<mapsto> PyInt 2, ''c'' \<mapsto> PyInt 1],
      \<lparr>world = (),
       trace = [LogTaskStart ''a'', Invoke ''a'' [] [], LogTaskSuccess ''a'',
                LogTaskStart ''b'', Invoke ''b'' [] [], LogTaskSuccess ''b'',
                Invoke ''c'' [] [(''a'', PyInt 1)]],
       draws = 0\<rparr>)"
  by (simp add: Flow_run_def chain_flow_def chain3_acyclic eval_defs chain3_simps)


theorem raw_function_bypasses_policy_witness:
  "(\<exists>p\<in>set (params stubborn). p \<in> dom [''a'' \<mapsto> PyInt 1])
   \<and> retries stubborn = 3 \<and> \<not> will_run stubborn []
   \<and> Flow_execute_task (\<lambda>k. 0) stubborn [''a'' \<mapsto> PyInt 1] r0 =
        (Inl (UserError ''boom''),
         \<lparr>world = (), trace = [Invoke ''s'' [] [(''a'', PyInt 1)]], draws = 0\<rparr>)
   \<and> \<not> (\<exists>p\<in>set (params stubborn). p \<in> dom [''b'' \<mapsto> PyInt 2])
   \<and> Flow_execute_task (\<lambda>k. 0) stubborn [''b'' \<mapsto> PyInt 2] r0 =
        (Inr PyNone,
         \<lparr>world = (), trace = [LogTaskSkip ''s'' ''no upstream data''], draws = 0\<rparr>)"
  using raw_function_bypasses_policy [of stubborn "[''a'' \<mapsto> PyInt 1]" "\<lambda>k. 0" r0
      "AppliedTask 0 stubborn []"]
    raw_function_bypasses_policy [of stubborn "[''b'' \<mapsto> PyInt 2]" "\<lambda>k. 0" r0
      "AppliedTask 0 stubborn []"]
  by (simp add: stubborn_def r0_def will_run_def Task_call_def emit_def)

theorem at_most_once_witness:
  "wf_registry chain3 [2, 3, 4] \<and> inj_on (\<lambda>t. name (chain3 t)) (set [2, 3, 4])
   \<and> wf_flow chain_flow [2, 3, 4]
   \<and> distinct (submitted (snd (DAG_pool (\<lambda>k. 0) chain3 [2, 3, 4] [0, 0, 0] r0)))
   \<and> results (snd (DAG_pool (\<lambda>k. 0) chain3 [2, 3, 4] [0, 0, 0] r0))
        \<subseteq>\<^sub>m results (snd (DAG_pool (\<lambda>k. 0) chain3 [2, 3, 4] ([0, 0, 0] @ [0, 0, 0]) r0))
   \<and> distinct (submitted (snd (Flow_pool (\<lambda>k. 0) chain3 chain_flow [2, 3, 4] [0, 0, 0] r0)))
   \<and> results (snd (Flow_pool (\<lambda>k. 0) chain3 chain_flow [2, 3, 4] [0, 0, 0] r0))
        \<subseteq>\<^sub>m results (snd (Flow_pool (\<lambda>k. 0) chain3 chain_flow [2, 3, 4] ([0, 0, 0] @ [0, 0, 0]) r0))"
proof -
  have a: "wf_registry chain3 [2, 3, 4]"
    by (simp add: wf_registry_def chain3_simps)
  have b: "inj_on (\<lambda>t. name (chain3 t)) (set [2, 3, 4])"
    by (simp add: chain3_simps)
  have c: "wf_flow chain_flow [2, 3, 4]"
    by (simp add: wf_flow_def chain_flow_def chain3_simps)
  show ?thesis
    using a b c at_most_once [of chain3 "[2, 3, 4]" "\<lambda>k. 0" "[0, 0, 0]" r0 "[0, 0, 0]"
        chain_flow "[2, 3, 4]"]
    by blast
qed

theorem none_results_witness:
  "\<not> will_run picky [PyInt 30] \<and> will_run quiet []
   \<and> fst (Task_call (\<lambda>k. 0) picky [PyInt 30] [] r0) = Inr PyNone
   \<and> fst (Task_call (\<lambda>k. 0) quiet [] [] r0) = Inr PyNone
   \<and> results (after (complete (DAG_engine (\<lambda>k. 0) chain3 [2, 3, 4]) 0 2 (Inr (PyInt 1))
        (init_state (DAG_engine (\<lambda>k. 0) chain3 [2, 3, 4]) r0))) = [''a'' \<mapsto> PyInt 1]"
  using none_results [of "\<lambda>k. 0" chain3 "[2, 3, 4]" 0 2
      "init_state (DAG_engine (\<lambda>k. 0) chain3 [2, 3, 4]) r0" "PyInt 1" chain_flow "[2, 3, 4]" 0 2
      "init_state (Flow_engine (\<lambda>k. 0) chain3 chain_flow [2, 3, 4]) r0"
      "build_graph [] 0" 0 "AppliedTask 0 quiet []"
      "init_state (Functional_engine (\<lambda>k. 0) (build_graph [] 0)) r0" picky "[PyInt 30]" "[]" r0]
    none_results [of "\<lambda>k. 0" chain3 "[2, 3, 4]" 0 2
      "init_state (DAG_engine (\<lambda>k. 0) chain3 [2, 3, 4]) r0" "PyInt 1" chain_flow "[2, 3, 4]" 0 2
      "init_state (Flow_engine (\<lambda>k. 0) chain3 chain_flow [2, 3, 4]) r0"
      "build_graph [] 0" 0 "AppliedTask 0 quiet []"
      "init_state (Functional_engine (\<lambda>k. 0) (build_graph [] 0)) r0" quiet "[]" "[]" r0]
  by (simp add: picky_def quiet_def will_run_def r0_def emit_def init_state_fields chain3_simps)



lemma loop2_has_cycle: "has_cycle (\<lambda>t. downstream (loop2 t)) [2, 3] = Inr True"
  by (simp add: has_cycle_def loop2_def dfs.simps dfs_each.simps(2))


lemma example_nodes [simp]:
  "nC \<noteq> nA" "nA \<noteq> nC" "stray \<noteq> nA" "stray \<noteq> nC"
  "inputs nA = []" "inputs nC = [nA]"
  "node_task nA = chain3 2" "node_task nC = chain3 4"
  "as_applied nA g = (nA, g)" "as_applied nC g = (nC, g)"
  "layer_free nA" "layer_free nC"
  "subnodes nA = {nA}" "subnodes nC = {nC, nA}"
  by (simp_all add: nA_def nC_def stray_def)

lemma functional_example_graph:
  "all_nodes (build_graph [nC] 100) = [nC, nA]"
  "fwd (build_graph [nC] 100) nA = [nC]" "fwd (build_graph [nC] 100) nC = []"
  "rev_graph (build_graph [nC] 100) nC = [nA]" "rev_graph (build_graph [nC] 100) nA = []"
  by (simp_all add: build_graph_def traverse.simps Let_def)

lemma functional_example_run:
  "FunctionalFlow_run (\<lambda>k. 0) [nC] 100 [0, 0, 0, 0] r0 =
     (Return (PyInt 1),
      \<lparr>world = (),
       trace = [LogTaskStart ''a'', Invoke ''a'' [] [], LogTaskSuccess ''a'',
                Invoke ''c'' [] [(''a'', PyInt 1)]],
       draws = 0\<rparr>)"
proof -
  have h: "has_cycle (fwd (build_graph [nC] 100)) [nC, nA] = Inr False"
    by (simp add: has_cycle_def dfs.simps dfs_each.simps(2) functional_example_graph)
  have r: "fst (Functional_pool (\<lambda>k. 0) (build_graph [nC] 100) [0, 0, 0, 0] r0) = Returned"
    "results (snd (Functional_pool (\<lambda>k. 0) (build_graph [nC] 100) [0, 0, 0, 0] r0))
       = [''a'' \<mapsto> PyInt 1, ''c'' \<mapsto> PyInt 1]"
    "rt (snd (Functional_pool (\<lambda>k. 0) (build_graph [nC] 100) [0, 0, 0, 0] r0))
       = \<lparr>world = (),
       trace = [LogTaskStart ''a'', Invoke ''a'' [] [], LogTaskSuccess ''a'',
                Invoke ''c'' [] [(''a'', PyInt 1)]],
       draws = 0\<rparr>"
    by (simp_all add: eval_defs functional_example_graph node_name_def chain3_simps)
  show ?thesis
    using h r
    by (simp add: FunctionalFlow_run_def functional_example_graph Let_def split_beta
        node_name_def chain3_simps split: status.splits)
qed

theorem upstream_resolved_first_witness:
  "wf_registry chain3 [2, 3, 4] \<and> layer_free nC
   \<and> submitted (snd (DAG_pool (\<lambda>k. 0) chain3 [2, 3, 4] [0, 0, 0] r0)) = [2, 3]
   \<and> finished (snd (DAG_pool (\<lambda>k. 0) chain3 [2, 3, 4] [0, 0, 0] r0)) = [2]
   \<and> set (upstream (chain3 3))
         \<subseteq> set (finished (snd (DAG_pool (\<lambda>k. 0) chain3 [2, 3, 4] [0, 0, 0] r0)))
   \<and> submitted (snd (Functional_pool (\<lambda>k. 0) (build_graph [nC] 100) [0, 0, 0] r0)) = [nA, nC]
   \<and> set (inputs nC)
         \<subseteq> set (finished (snd (Functional_pool (\<lambda>k. 0) (build_graph [nC] 100) [0, 0, 0] r0)))"
proof -
  have a: "wf_registry chain3 [2, 3, 4]" by (simp add: wf_registry_def chain3_simps)
  have b: "\<forall>x\<in>set [nC]. layer_free x" by simp
  have c: "submitted (snd (DAG_pool (\<lambda>k. 0) chain3 [2, 3, 4] [0, 0, 0] r0)) = [2, 3]"
    "finished (snd (DAG_pool (\<lambda>k. 0) chain3 [2, 3, 4] [0, 0, 0] r0)) = [2]"
    by (simp_all add: eval_defs chain3_simps)
  have d: "submitted (snd (Functional_pool (\<lambda>k. 0) (build_graph [nC] 100) [0, 0, 0] r0)) = [nA, nC]"
    by (simp add: eval_defs functional_example_graph node_name_def chain3_simps)
  show ?thesis
    using a b c d upstream_resolved_first [of chain3 "[2, 3, 4]" "\<lambda>k. 0" "[0, 0, 0]" r0 "[nC]" 100]
    by simp
qed





lemma gated_simps:
  "gated 2 = \<lparr>func = (\<lambda>args kw w. (Inr (PyInt 30), w)), name = ''small'', params = [],
         upstream = [], downstream = [3], retries = 0, delay = 1, backoff = 2, when_pred = None\<rparr>"
  "gated 3 = \<lparr>func = (\<lambda>args kw w. (Inr (PyStr ''big''), w)), name = ''picky'', params = [''value''],
         upstream = [2], downstream = [4], retries = 3, delay = 1, backoff = 2,
         when_pred = Some (\<lambda>v. case v of PyInt x \<Rightarrow> 50 < x | _ \<Rightarrow> False)\<rparr>"
  "gated 4 = \<lparr>func = (\<lambda>args kw w. (Inr (PyList args), w)), name = ''report'', params = [''picky''],
         upstream = [3], downstream = [], retries = 0, delay = 1, backoff = 2, when_pred = None\<rparr>"
  "gated 5 = \<lparr>func = (\<lambda>args kw w. (Inr (PyStr ''alone''), w)), name = ''lonely'', params = [''value''],
         upstream = [], downstream = [], retries = 3, delay = 1, backoff = 2,
         when_pred = Some (\<lambda>v. case v of PyInt x \<Rightarrow> 50 < x | _ \<Rightarrow> False)\<rparr>"
  by (simp_all add: gated_def)

lemma gated_acyclic: "has_cycle (\<lambda>t. downstream (gated t)) [2, 3, 4, 5] = Inr False"
  by (simp add: has_cycle_def gated_simps dfs.simps dfs_each.simps(2))

lemma nP_simps [simp]:
  "inputs nP = []" "node_task nP = picky" "as_applied nP g = (nP, g)" "node_name nP = ''picky''"
  by (simp_all add: nP_def node_name_def picky_def)

lemma skipped_graph:
  "all_nodes (build_graph [nP] 100) = [nP]"
  "fwd (build_graph [nP] 100) nP = []" "rev_graph (build_graph [nP] 100) nP = []"
  by (simp_all add: build_graph_def traverse.simps Let_def)

text \<open>
  Against claim C5 as stated: a \<open>FunctionalFlow\<close> whose only node is a task with a
  \<open>when\<close> predicate. The node has no input, so the task is called without arguments
  and skipped, and the run ends with the entry \<open>None\<close> under the name of the node in
  its Result Store, which is also the value the run returns.
\<close>

theorem functional_skip_stored_counterexample:
  "when_pred picky \<noteq> None \<and> \<not> will_run picky []
   \<and> fst (Functional_pool (\<lambda>k. 0) (build_graph [nP] 100) [0, 0] r0) = Returned
   \<and> results (snd (Functional_pool (\<lambda>k. 0) (build_graph [nP] 100) [0, 0] r0)) ''picky''
        = Some PyNone
   \<and> FunctionalFlow_run (\<lambda>k. 0) [nP] 100 [0, 0] r0 =
        (Return PyNone,
         \<lparr>world = (), trace = [LogTaskSkip ''picky'' ''no upstream data''], draws = 0\<rparr>)"
proof -
  have h: "has_cycle (fwd (build_graph [nP] 100)) [nP] = Inr False"
    by (simp add: has_cycle_def dfs.simps dfs_each.simps(2) skipped_graph)
  have p: "when_pred picky \<noteq> None" "\<not> will_run picky []" "name picky = ''picky''"
    by (simp_all add: picky_def will_run_def)
  have r: "fst (Functional_pool (\<lambda>k. 0) (build_graph [nP] 100) [0, 0] r0) = Returned"
    "results (snd (Functional_pool (\<lambda>k. 0) (build_graph [nP] 100) [0, 0] r0))
       = [''picky'' \<mapsto> PyNone]"
    "rt (snd (Functional_pool (\<lambda>k. 0) (build_graph [nP] 100) [0, 0] r0))
       = \<lparr>world = (), trace = [LogTaskSkip ''picky'' ''no upstream data''], draws = 0\<rparr>"
    using p(2,3) by (simp_all add: Functional_pool_def init_state_def Functional_engine_def step_def
        run_future_def complete_def submit_def execute_node_def Task_call_skip emit_def r0_def
        Let_def skipped_graph)
  show ?thesis
    using h r p(1,2)
    by (simp add: FunctionalFlow_run_def skipped_graph Let_def split_beta split: status.splits)
qed


theorem skip_contract_witness:
  "when_pred (gated 5) = Some (\<lambda>v. case v of PyInt x \<Rightarrow> 50 < x | _ \<Rightarrow> False)
   \<and> \<not> will_run (gated 5) [PyInt 30] \<and> will_run (gated 5) [PyInt 70]
   \<and> Task_call (\<lambda>k. 0) (gated 5) [PyInt 30] [] r0 =
        (Inr PyNone, emit (LogTaskSkip ''lonely'' ''condition not met'') r0)
   \<and> wf_registry gated [2, 3, 4, 5] \<and> inj_on (\<lambda>x. name (gated x)) (set [2, 3, 4, 5])
   \<and> DAG_args gated Map.empty 5 = []
   \<and> results (snd (DAG_pool (\<lambda>k. 0) gated [2, 3, 4, 5] [0, 0, 1, 1, 0, 0, 0, 0] r0)) ''lonely'' = None
   \<and> fst (DAG_pool (\<lambda>k. 0) gated [2, 3, 4, 5] [0, 0, 1] r0) = Running
   \<and> futures (snd (DAG_pool (\<lambda>k. 0) gated [2, 3, 4, 5] [0, 0, 1] r0)) ! 1 = (3, Done (Inr PyNone))
   \<and> results (after (complete (DAG_engine (\<lambda>k. 0) gated [2, 3, 4, 5]) 1 3 (Inr PyNone)
        (snd (DAG_pool (\<lambda>k. 0) gated [2, 3, 4, 5] [0, 0, 1] r0)))) ''picky'' = None
   \<and> finished (snd (DAG_pool (\<lambda>k. 0) gated [2, 3, 4, 5] [0, 0, 1, 1] r0)) = [2, 3]
   \<and> 4 \<in> set (submitted (snd (DAG_pool (\<lambda>k. 0) gated [2, 3, 4, 5] [0, 0, 1, 1] r0)))
   \<and> DAG_run (\<lambda>k. 0) gated [2, 3, 4, 5] [0, 0, 1, 1, 0, 0, 0, 0] r0 =
        (Return [''small'' \<mapsto> PyInt 30, ''report'' \<mapsto> PyList [PyNone]],
         \<lparr>world = (),
          trace = [LogTaskStart ''small'', Invoke ''small'' [] [], LogTaskSuccess ''small'',
                   LogTaskSkip ''picky'' ''condition not met'',
                   LogTaskSkip ''lonely'' ''no upstream data'',
                   LogTaskStart ''report'', Invoke ''report'' [PyNone] [],
                   LogTaskSuccess ''report''],
          draws = 0\<rparr>)"
proof -
  let ?c = "\<lambda>v. case v of PyInt x \<Rightarrow> 50 < x | _ \<Rightarrow> False"
  have c: "when_pred (gated 5) = Some ?c" by (simp add: gated_simps)
  have wf: "wf_registry gated [2, 3, 4, 5]" by (simp add: wf_registry_def gated_simps)
  have inj: "inj_on (\<lambda>x. name (gated x)) (set [2, 3, 4, 5])" by (simp add: gated_simps)
  have nm: "name (gated 5) = ''lonely''" "name (gated 3) = ''picky''" by (simp_all add: gated_simps)
  have da: "DAG_args gated res 5 = []" for res by (simp add: DAG_args_def gated_simps)
  have st: "fst (DAG_pool (\<lambda>k. 0) gated [2, 3, 4, 5] [0, 0, 1] r0) = Running"
    "futures (snd (DAG_pool (\<lambda>k. 0) gated [2, 3, 4, 5] [0, 0, 1] r0))
       = [(5, Queued []), (3, Done (Inr PyNone))]"
    by (simp_all add: eval_defs gated_simps)
  have st4: "fst (DAG_pool (\<lambda>k. 0) gated [2, 3, 4, 5] [0, 0, 1, 1] r0) = Running"
    "finished (snd (DAG_pool (\<lambda>k. 0) gated [2, 3, 4, 5] [0, 0, 1, 1] r0)) = [2, 3]"
    by (simp_all add: eval_defs gated_simps)
  have run: "DAG_run (\<lambda>k. 0) gated [2, 3, 4, 5] [0, 0, 1, 1, 0, 0, 0, 0] r0 =
        (Return [''small'' \<mapsto> PyInt 30, ''report'' \<mapsto> PyList [PyNone]],
         \<lparr>world = (),
          trace = [LogTaskStart ''small'', Invoke ''small'' [] [], LogTaskSuccess ''small'',
                   LogTaskSkip ''picky'' ''condition not met'',
                   LogTaskSkip ''lonely'' ''no upstream data'',
                   LogTaskStart ''report'', Invoke ''report'' [PyNone] [],
                   LogTaskSuccess ''report''],
          draws = 0\<rparr>)"
    by (simp add: DAG_run_def gated_acyclic eval_defs gated_simps)
  note T = skip_contract [where t = "gated 5" and cond = ?c and args = "[PyInt 30]"
      and draw = "\<lambda>k. 0" and kw = "[]" and s = r0 and heap = gated and tasks = "[2, 3, 4, 5]"
      and f = 5 and sched = "[0, 0, 1, 1, 0, 0, 0, 0]" and r = r0, OF c]
  note T' = skip_contract [where t = "gated 5" and cond = ?c and args = "[PyInt 70]"
      and draw = "\<lambda>k. 0" and heap = gated and tasks = "[2, 3, 4, 5]"
      and ks = "[0, 0, 1]" and pos = 1 and sk = 3
      and d = 4 and sched = "[0, 0, 1, 1]" and r = r0, OF c]
  have w1: "\<not> will_run (gated 5) [PyInt 30]" using T [THEN conjunct1] by simp
  have w2: "will_run (gated 5) [PyInt 70]" using T' [THEN conjunct1] by simp
  have t1: "Task_call (\<lambda>k. 0) (gated 5) [PyInt 30] [] r0 =
        (Inr PyNone, emit (LogTaskSkip ''lonely'' ''condition not met'') r0)"
    using T [THEN conjunct2, THEN conjunct1] nm by simp
  have r1: "results (snd (DAG_pool (\<lambda>k. 0) gated [2, 3, 4, 5] [0, 0, 1, 1, 0, 0, 0, 0] r0))
      ''lonely'' = None"
    using T [THEN conjunct2, THEN conjunct2, THEN conjunct2, THEN conjunct2, THEN conjunct2, THEN conjunct2, THEN conjunct2, THEN conjunct2, THEN conjunct1] wf inj da nm by simp
  have r2: "results (after (complete (DAG_engine (\<lambda>k. 0) gated [2, 3, 4, 5]) 1 3 (Inr PyNone)
        (snd (DAG_pool (\<lambda>k. 0) gated [2, 3, 4, 5] [0, 0, 1] r0)))) ''picky'' = None"
    using T' [THEN conjunct2, THEN conjunct2, THEN conjunct2, THEN conjunct2, THEN conjunct2, THEN conjunct2, THEN conjunct2, THEN conjunct2, THEN conjunct2, THEN conjunct1] wf inj st nm by simp
  have r3: "4 \<in> set (submitted (snd (DAG_pool (\<lambda>k. 0) gated [2, 3, 4, 5] [0, 0, 1, 1] r0)))"
    using T' [THEN conjunct2, THEN conjunct2, THEN conjunct2, THEN conjunct2, THEN conjunct2, THEN conjunct2, THEN conjunct2, THEN conjunct2, THEN conjunct2, THEN conjunct2, THEN conjunct1] wf st4 by (simp add: gated_simps)
  show ?thesis
    using c w1 w2 t1 wf inj da [of Map.empty] r1 st r2 st4(2) r3 run by simp
qed

end
